theory Spec2Isabelle
  imports Main
begin

section \<open>Data model of btree.go\<close>

text \<open>
  The Go file is embedded function by function. Conventions:
  \<^item> A run-time panic is a value \<open>Inl e\<close> of the result type \<open>error + 'r\<close>. The constructor
    names follow the error kinds of the specification; the strings are the messages of the
    source's \<open>panic\<close> calls.
  \<^item> An \<open>Item\<close> is an interface value and may be nil: it is an \<open>'a option\<close>, \<open>None\<close> being nil.
    The user's method \<open>Less(than, ctx)\<close> is the parameter \<open>Less\<close>; calling it on a nil receiver
    is a nil dereference.
  \<^item> Nodes are reached through exactly one pointer (a parent's child slot, the tree's root or
    a slot of the free list), so a node is a value and every method returns the updated
    receiver. The back pointer \<open>n.t\<close> is only used to reach the tree's free list, which is
    passed in and returned explicitly.
  \<^item> Indices and the bounds \<open>minItems\<close>, \<open>maxItems\<close> are lengths, results of \<open>find\<close> or
    derived from a degree of at least two; they are natural numbers. Whatever is read from a
    slice is checked against its length first.
  \<^item> The source misspells some identifiers (\<open>dgree\<close>, \<open>strealFrom\<close>, \<open>mergerItem\<close>,
    \<open>mergerChild\<close>, \<open>(**s)\<close>); each is read as the declared identifier it misspells.
\<close>

datatype error =
    InvalidArgument string
  | InternalInvariant string
  | IndexOutOfRange
  | NilDereference

type_synonym 'a Item = "'a option"

datatype 'a node = Node (items: "'a Item list") (children: "'a node list")

record 'a FreeList =
  freelist :: "'a node list"
  cap :: nat

text \<open>\<open>DefaultFreeListSize\<close>, line 16.\<close>

definition DefaultFreeListSize :: int where
  "DefaultFreeListSize = 32"

text \<open>\<open>NewFreeList\<close>: \<open>make([]*node, 0, size)\<close> panics for a negative capacity.\<close>

definition NewFreeList :: "int \<Rightarrow> error + 'a FreeList" where
  "NewFreeList sz =
     (if sz < 0 then Inl IndexOutOfRange
      else Inr \<lparr>freelist = [], cap = nat sz\<rparr>)"

text \<open>\<open>FreeList.newNode\<close>: the top of the stack, or \<open>new(node)\<close> when the stack is empty.\<close>

definition newNode :: "'a FreeList \<Rightarrow> 'a node \<times> 'a FreeList" where
  "newNode f =
     (if length (freelist f) = 0 then (Node [] [], f)
      else (last (freelist f), f\<lparr>freelist := butlast (freelist f)\<rparr>))"

text \<open>\<open>FreeList.freeNode\<close>: push while \<open>len < cap\<close>, otherwise nothing.\<close>

definition freeNode :: "'a FreeList \<Rightarrow> 'a node \<Rightarrow> 'a FreeList" where
  "freeNode f n =
     (if length (freelist f) < cap f then f\<lparr>freelist := freelist f @ [n]\<rparr> else f)"

subsection \<open>The tree record and the constructors\<close>

text \<open>
  The declaration of \<open>BTree\<close> is not part of the file. Its fields are those of the composite
  literal in \<open>NewWithFreeList\<close> (degree, freelist, ctx) and the two the specification adds
  (the optional root and the item count), both zero in a new tree.
\<close>

record ('a, 'c) BTree =
  t_degree :: int
  t_freelist :: "'a FreeList"
  t_ctx :: 'c
  t_root :: "'a node option"
  t_length :: nat

definition NewWithFreeList :: "int \<Rightarrow> 'a FreeList \<Rightarrow> 'c \<Rightarrow> error + ('a, 'c) BTree" where
  "NewWithFreeList degree f ctx =
     (if degree \<le> 1 then Inl (InvalidArgument ''bad degree'')
      else Inr \<lparr>t_degree = degree, t_freelist = f, t_ctx = ctx, t_root = None, t_length = 0\<rparr>)"

definition New :: "int \<Rightarrow> 'c \<Rightarrow> error + ('a, 'c) BTree" where
  "New degree ctx =
     (case NewFreeList DefaultFreeListSize of
        Inl e \<Rightarrow> Inl e
      | Inr f \<Rightarrow> NewWithFreeList degree f ctx)"

subsection \<open>Slices of items and of children\<close>

text \<open>
  \<open>insertAt\<close>, \<open>removeAt\<close> and \<open>pop\<close> are written twice in the source, for \<open>items\<close> and for
  \<open>children\<close>, with the same body; one polymorphic definition stands for both.
\<close>

definition insertAt :: "'b list \<Rightarrow> nat \<Rightarrow> 'b \<Rightarrow> error + 'b list" where
  "insertAt s index x =
     (if index < length s + 1 then Inr (take index s @ x # drop index s)
      else Inl IndexOutOfRange)"

definition removeAt :: "'b list \<Rightarrow> nat \<Rightarrow> error + ('b \<times> 'b list)" where
  "removeAt s index =
     (if index < length s then Inr (s ! index, take index s @ drop (index + 1) s)
      else Inl IndexOutOfRange)"

definition pop :: "'b list \<Rightarrow> error + ('b \<times> 'b list)" where
  "pop s = (if length s = 0 then Inl IndexOutOfRange else Inr (last s, butlast s))"

text \<open>
  \<open>items.find\<close>: the loop of lines 111 to 118 with its two variables, then the test of
  line 119.
\<close>

function find_loop ::
  "('a \<Rightarrow> 'a Item \<Rightarrow> 'c \<Rightarrow> bool) \<Rightarrow> 'c \<Rightarrow> 'a Item list \<Rightarrow> 'a Item \<Rightarrow> nat \<Rightarrow> nat \<Rightarrow> error + nat"
where
  "find_loop Less ctx s item i j =
     (if i < j then
        (let h = i + (j - i) div 2 in
         case item of
           None \<Rightarrow> Inl NilDereference
         | Some x \<Rightarrow>
             if h < length s then
               (if \<not> Less x (s ! h) ctx then find_loop Less ctx s item (h + 1) j
                else find_loop Less ctx s item i h)
             else Inl IndexOutOfRange)
      else Inr i)"
  by pat_completeness auto
termination
  by (relation "measure (\<lambda>(Less, ctx, s, item, i, j). j - i)") auto

declare find_loop.simps [simp del]

definition find_item ::
  "('a \<Rightarrow> 'a Item \<Rightarrow> 'c \<Rightarrow> bool) \<Rightarrow> 'c \<Rightarrow> 'a Item list \<Rightarrow> 'a Item \<Rightarrow> error + (nat \<times> bool)"
where
  "find_item Less ctx s item =
     (case find_loop Less ctx s item 0 (length s) of
        Inl e \<Rightarrow> Inl e
      | Inr i \<Rightarrow>
          if i > 0 then
            (case s ! (i - 1) of
               None \<Rightarrow> Inl NilDereference
             | Some y \<Rightarrow> if \<not> Less y item ctx then Inr (i - 1, True) else Inr (i, False))
          else Inr (i, False))"

subsection \<open>Nodes and the pool\<close>

text \<open>
  Modelled from the spec: \<open>BTree.newNode\<close>, which \<open>split\<close> calls as \<open>n.t.newNode()\<close> and
  which is not part of the file. "Nodes are created on demand from the free-list or fresh
  allocation": it is the pool's \<open>newNode\<close>.
\<close>

definition t_newNode :: "'a FreeList \<Rightarrow> 'a node \<times> 'a FreeList" where
  "t_newNode f = newNode f"

text \<open>
  Modelled from the spec: \<open>BTree.freeNode\<close>, which \<open>growChildAndRemove\<close> calls as
  \<open>n.t.freeNode(mergeChild)\<close> and which is not part of the file. The pool is a "bounded
  stack of reusable blank node objects" and after a merge "the emptied node is handed to
  the free-list": the node is emptied, then given to the pool's \<open>freeNode\<close>.
\<close>

definition t_freeNode :: "'a FreeList \<Rightarrow> 'a node \<Rightarrow> 'a FreeList" where
  "t_freeNode f n = freeNode f (Node [] [])"

text \<open>
  \<open>node.split\<close>. The result is the item, the shrunk receiver, the new node and the pool.
  The new node comes from the pool and \<open>append\<close> adds to whatever it holds.
\<close>

definition split_node ::
  "'a node \<Rightarrow> nat \<Rightarrow> 'a FreeList \<Rightarrow> error + ('a Item \<times> 'a node \<times> 'a node \<times> 'a FreeList)"
where
  "split_node n i fl =
     (if i < length (items n) then
        (let item = items n ! i;
             (next, fl') = t_newNode fl;
             nextItems = items next @ drop (i + 1) (items n);
             nItems = take i (items n)
         in if length (children n) > 0 then
              (if i + 1 \<le> length (children n) then
                 Inr (item,
                      Node nItems (take (i + 1) (children n)),
                      Node nextItems (children next @ drop (i + 1) (children n)),
                      fl')
               else Inl IndexOutOfRange)
            else Inr (item, Node nItems (children n), Node nextItems (children next), fl'))
      else Inl IndexOutOfRange)"

text \<open>\<open>node.maybeSplitChild\<close>: whether a split occurred, the receiver and the pool.\<close>

definition maybeSplitChild ::
  "'a node \<Rightarrow> nat \<Rightarrow> nat \<Rightarrow> 'a FreeList \<Rightarrow> error + (bool \<times> 'a node \<times> 'a FreeList)"
where
  "maybeSplitChild n i maxItems fl =
     (if i < length (children n) then
        (if length (items (children n ! i)) < maxItems then Inr (False, n, fl)
         else
           (case split_node (children n ! i) (maxItems div 2) fl of
              Inl e \<Rightarrow> Inl e
            | Inr (item, first, second, fl') \<Rightarrow>
                (case insertAt (items n) i item of
                   Inl e \<Rightarrow> Inl e
                 | Inr nItems \<Rightarrow>
                     (case insertAt ((children n)[i := first]) (i + 1) second of
                        Inl e \<Rightarrow> Inl e
                      | Inr nChildren \<Rightarrow> Inr (True, Node nItems nChildren, fl')))))
      else Inl IndexOutOfRange)"

text \<open>
  The \<open>switch\<close> of \<open>node.insert\<close>, lines 211 to 221, after a split: the replaced item when
  the promoted item is equivalent, else the index of the child to descend into.
\<close>

definition insert_switch ::
  "('a \<Rightarrow> 'a Item \<Rightarrow> 'c \<Rightarrow> bool) \<Rightarrow> 'c \<Rightarrow> 'a node \<Rightarrow> nat \<Rightarrow> 'a Item \<Rightarrow>
     error + (('a Item \<times> 'a node) + nat)"
where
  "insert_switch Less ctx n i item =
     (if i < length (items n) then
        (let inTree = items n ! i in
         case item of
           None \<Rightarrow> Inl NilDereference
         | Some x \<Rightarrow>
             if Less x inTree ctx then Inr (Inr i)
             else
               (case inTree of
                  None \<Rightarrow> Inl NilDereference
                | Some y \<Rightarrow>
                    if Less y item ctx then Inr (Inr (i + 1))
                    else Inr (Inl (inTree, Node ((items n)[i := item]) (children n)))))
      else Inl IndexOutOfRange)"

fun weight :: "'a node \<Rightarrow> nat" where
  "weight (Node s cs) = Suc (length s + sum_list (map weight cs))"

text \<open>\<open>node.insert\<close>: the replaced item (nil when none), the receiver and the pool.\<close>

function insert_node ::
  "('a \<Rightarrow> 'a Item \<Rightarrow> 'c \<Rightarrow> bool) \<Rightarrow> 'c \<Rightarrow> 'a node \<Rightarrow> 'a Item \<Rightarrow> nat \<Rightarrow> 'a FreeList \<Rightarrow>
     error + ('a Item \<times> 'a node \<times> 'a FreeList)"
where
  "insert_node Less ctx n item maxItems fl =
     (case find_item Less ctx (items n) item of
        Inl e \<Rightarrow> Inl e
      | Inr (i, found) \<Rightarrow>
          if found then
            (if i < length (items n)
             then Inr (items n ! i, Node ((items n)[i := item]) (children n), fl)
             else Inl IndexOutOfRange)
          else if length (children n) = 0 then
            (case insertAt (items n) i item of
               Inl e \<Rightarrow> Inl e
             | Inr s \<Rightarrow> Inr (None, Node s (children n), fl))
          else
            (case maybeSplitChild n i maxItems fl of
               Inl e \<Rightarrow> Inl e
             | Inr (sp, n1, fl1) \<Rightarrow>
                 (case (if sp then insert_switch Less ctx n1 i item else Inr (Inr i)) of
                    Inl e \<Rightarrow> Inl e
                  | Inr (Inl (out, n2)) \<Rightarrow> Inr (out, n2, fl1)
                  | Inr (Inr j) \<Rightarrow>
                      if j < length (children n1) then
                        (case insert_node Less ctx (children n1 ! j) item maxItems fl1 of
                           Inl e \<Rightarrow> Inl e
                         | Inr (out, c, fl2) \<Rightarrow>
                             Inr (out, Node (items n1) ((children n1)[j := c]), fl2))
                      else Inl IndexOutOfRange)))"
  by pat_completeness auto
termination
proof (relation "measure (\<lambda>(Less, ctx, n, item, maxItems, fl).
                    weight n + sum_list (map weight (freelist fl)))", goal_cases)
  case 1
  show ?case by simp
next
  case (2 Less ctx n item maxItems fl b i found sn sp sn' n1 fl1 sw j)
  have nw: "\<And>m :: 'a node. weight m = Suc (length (items m) + sum_list (map weight (children m)))"
    by (case_tac m) simp
  have cw: "\<And>c (cs :: 'a node list). c \<in> set cs \<Longrightarrow> weight c \<le> sum_list (map weight cs)"
    by (simp add: member_le_sum_list)
  have tk: "\<And>k (cs :: 'a node list). sum_list (map weight (take k cs)) \<le> sum_list (map weight cs)"
    by (metis append_take_drop_id le_add1 map_append sum_list.append)
  have dr: "\<And>k (cs :: 'a node list). sum_list (map weight (drop k cs)) \<le> sum_list (map weight cs)"
    by (metis append_take_drop_id le_add2 map_append sum_list.append)
  have pw: "\<And>(f :: 'a FreeList) p f'. t_newNode f = (p, f') \<Longrightarrow>
              weight p + sum_list (map weight (freelist f')) \<le> Suc (sum_list (map weight (freelist f)))
              \<and> sum_list (map weight (freelist f')) \<le> sum_list (map weight (freelist f))"
  proof -
    fix f :: "'a FreeList" and p f'
    assume a: "t_newNode f = (p, f')"
    show "weight p + sum_list (map weight (freelist f')) \<le> Suc (sum_list (map weight (freelist f)))
              \<and> sum_list (map weight (freelist f')) \<le> sum_list (map weight (freelist f))"
    proof (cases "freelist f = []")
      case True
      then show ?thesis using a by (auto simp: t_newNode_def newNode_def)
    next
      case False
      then have "freelist f = butlast (freelist f) @ [last (freelist f)]" by simp
      then have "sum_list (map weight (freelist f))
                 = sum_list (map weight (butlast (freelist f))) + weight (last (freelist f))"
        by (metis (no_types, lifting) list.simps(8,9) map_append sum_list.Cons sum_list.Nil
            sum_list.append add.right_neutral)
      then show ?thesis using a False by (auto simp: t_newNode_def newNode_def)
    qed
  qed
  have sw: "\<And>(c :: 'a node) k f item first second f'.
              split_node c k f = Inr (item, first, second, f') \<Longrightarrow>
              weight first < weight c
              \<and> weight second + sum_list (map weight (freelist f')) < weight c + sum_list (map weight (freelist f))
              \<and> sum_list (map weight (freelist f')) \<le> sum_list (map weight (freelist f))"
  proof -
    fix c :: "'a node" and k f item first second f'
    assume a: "split_node c k f = Inr (item, first, second, f')"
    obtain p where p: "t_newNode f = (p, f')"
      using a by (auto simp: split_node_def Let_def split: if_splits prod.splits)
    have k: "k < length (items c)"
      using a by (auto simp: split_node_def split: if_splits)
    have f1: "first = Node (take k (items c)) (take (k + 1) (children c))"
      using a p k by (auto simp: split_node_def Let_def split: if_splits)
    have f2: "second = Node (items p @ drop (k + 1) (items c)) (children p @ drop (k + 1) (children c))"
      using a p k by (auto simp: split_node_def Let_def split: if_splits)
    show "weight first < weight c
              \<and> weight second + sum_list (map weight (freelist f')) < weight c + sum_list (map weight (freelist f))
              \<and> sum_list (map weight (freelist f')) \<le> sum_list (map weight (freelist f))"
      using pw [OF p] k tk [of "k + 1" "children c"] dr [of "k + 1" "children c"] nw [of c] nw [of p]
      by (simp add: f1 f2) linarith
  qed
  have ms: "maybeSplitChild n i maxItems fl = Inr (sp, n1, fl1)"
    using 2 by simp
  have mem: "children n1 ! j \<in> set (children n1)"
    using 2 by simp
  have "weight (children n1 ! j) + sum_list (map weight (freelist fl1))
        < weight n + sum_list (map weight (freelist fl))"
  proof (cases "length (items (children n ! i)) < maxItems")
    case True
    then have "n1 = n" "fl1 = fl"
      using ms by (auto simp: maybeSplitChild_def split: if_splits)
    then show ?thesis
      using cw [OF mem] nw [of n] by simp
  next
    case False
    have i: "i < length (children n)"
      using ms by (auto simp: maybeSplitChild_def split: if_splits)
    obtain item' first second where
      sp: "split_node (children n ! i) (maxItems div 2) fl = Inr (item', first, second, fl1)"
      and cs: "children n1 = take (i + 1) ((children n)[i := first]) @ second # drop (i + 1) ((children n)[i := first])"
      using ms False i
      by (auto simp: maybeSplitChild_def insertAt_def split: if_splits sum.splits)
    have ci: "weight (children n ! i) \<le> sum_list (map weight (children n))"
      using cw [of "children n ! i" "children n"] i by simp
    from mem cs have "children n1 ! j = second \<or> children n1 ! j \<in> set ((children n)[i := first])
                      \<or> children n1 ! j \<in> set (children n)"
      by (auto dest: in_set_takeD in_set_dropD)
    then consider "children n1 ! j = second" | "children n1 ! j = first"
      | "children n1 ! j \<in> set (children n)"
      using set_update_subset_insert [of "children n" i first] by auto
    then show ?thesis
    proof cases
      case 1
      then show ?thesis using sw [OF sp] ci nw [of n] by simp
    next
      case 2
      then show ?thesis using sw [OF sp] ci nw [of n] by simp
    next
      case 3
      then show ?thesis using sw [OF sp] cw [OF 3] nw [of n] by simp
    qed
  qed
  then show ?case by simp
qed

declare insert_node.simps [simp del]

text \<open>\<open>node.get\<close>: the stored item equivalent to the key, or nil.\<close>

function get_node ::
  "('a \<Rightarrow> 'a Item \<Rightarrow> 'c \<Rightarrow> bool) \<Rightarrow> 'c \<Rightarrow> 'a node \<Rightarrow> 'a Item \<Rightarrow> error + 'a Item"
where
  "get_node Less ctx n key =
     (case find_item Less ctx (items n) key of
        Inl e \<Rightarrow> Inl e
      | Inr (i, found) \<Rightarrow>
          if found then
            (if i < length (items n) then Inr (items n ! i) else Inl IndexOutOfRange)
          else if length (children n) > 0 then
            (if i < length (children n) then get_node Less ctx (children n ! i) key
             else Inl IndexOutOfRange)
          else Inr None)"
  by pat_completeness auto
termination
proof (relation "measure (\<lambda>(Less, ctx, n, key). weight n)", goal_cases)
  case 1
  show ?case by simp
next
  case (2 Less ctx n key b i found)
  then have "children n ! i \<in> set (children n)"
    by simp
  then have "weight (children n ! i) \<le> sum_list (map weight (children n))"
    by (simp add: member_le_sum_list)
  moreover have "weight n = Suc (length (items n) + sum_list (map weight (children n)))"
    by (cases n) simp
  ultimately show ?case by simp
qed

declare get_node.simps [simp del]

subsection \<open>Removal\<close>

text \<open>\<open>toRemove\<close> is an integer type with three named values (\<open>iota\<close>).\<close>

type_synonym toRemove = int

definition removeItem :: toRemove where
  "removeItem = 0"

definition removeMin :: toRemove where
  "removeMin = 1"

definition removeMax :: toRemove where
  "removeMax = 2"

text \<open>
  The \<open>switch\<close> of \<open>node.remove\<close>, lines 278 to 299: either the call returns inside the
  switch (\<open>Inl\<close>: the removed item and the receiver), or it leaves the switch with the
  index \<open>i\<close> and the flag \<open>found\<close> (\<open>Inr\<close>).
\<close>

definition remove_switch ::
  "('a \<Rightarrow> 'a Item \<Rightarrow> 'c \<Rightarrow> bool) \<Rightarrow> 'c \<Rightarrow> 'a node \<Rightarrow> 'a Item \<Rightarrow> toRemove \<Rightarrow>
     error + (('a Item \<times> 'a node) + (nat \<times> bool))"
where
  "remove_switch Less ctx n item typ =
     (if typ = removeMax then
        (if length (children n) = 0 then
           (case pop (items n) of
              Inl e \<Rightarrow> Inl e
            | Inr (out, s) \<Rightarrow> Inr (Inl (out, Node s (children n))))
         else Inr (Inr (length (items n), False)))
      else if typ = removeMin then
        (if length (children n) = 0 then
           (case removeAt (items n) 0 of
              Inl e \<Rightarrow> Inl e
            | Inr (out, s) \<Rightarrow> Inr (Inl (out, Node s (children n))))
         else Inr (Inr (0, False)))
      else if typ = removeItem then
        (case find_item Less ctx (items n) item of
           Inl e \<Rightarrow> Inl e
         | Inr (i, found) \<Rightarrow>
             if length (children n) = 0 then
               (if found then
                  (case removeAt (items n) i of
                     Inl e \<Rightarrow> Inl e
                   | Inr (out, s) \<Rightarrow> Inr (Inl (out, Node s (children n))))
                else Inr (Inl (None, n)))
             else Inr (Inr (i, found)))
      else Inl (InternalInvariant ''invalid type''))"

text \<open>
  The body of \<open>node.growChildAndRemove\<close> before its final call, lines 344 to 375: steal
  from the left sibling, steal from the right sibling, or merge. The result is the receiver
  and the pool.
\<close>

definition growChild ::
  "'a node \<Rightarrow> nat \<Rightarrow> nat \<Rightarrow> 'a FreeList \<Rightarrow> error + ('a node \<times> 'a FreeList)"
where
  "growChild n i minItems fl =
     (if i < length (children n) then
        (let child = children n ! i in
         if i > 0 \<and> length (items (children n ! (i - 1))) > minItems then
           (let stealFrom = children n ! (i - 1) in
            case pop (items stealFrom) of
              Inl e \<Rightarrow> Inl e
            | Inr (stolenItem, fromItems) \<Rightarrow>
                if i - 1 < length (items n) then
                  (case insertAt (items child) 0 (items n ! (i - 1)) of
                     Inl e \<Rightarrow> Inl e
                   | Inr childItems \<Rightarrow>
                       (let nItems = (items n)[i - 1 := stolenItem] in
                        if length (children stealFrom) > 0 then
                          (case pop (children stealFrom) of
                             Inl e \<Rightarrow> Inl e
                           | Inr (c, fromChildren) \<Rightarrow>
                               (case insertAt (children child) 0 c of
                                  Inl e \<Rightarrow> Inl e
                                | Inr childChildren \<Rightarrow>
                                    Inr (Node nItems
                                           ((children n)[i - 1 := Node fromItems fromChildren,
                                                         i := Node childItems childChildren]),
                                         fl)))
                        else
                          Inr (Node nItems
                                 ((children n)[i - 1 := Node fromItems (children stealFrom),
                                               i := Node childItems (children child)]),
                               fl)))
                else Inl IndexOutOfRange)
         else if i < length (items n) \<and> \<not> i + 1 < length (children n) then Inl IndexOutOfRange
         else if i < length (items n) \<and> length (items (children n ! (i + 1))) > minItems then
           (let stealFrom = children n ! (i + 1) in
            case removeAt (items stealFrom) 0 of
              Inl e \<Rightarrow> Inl e
            | Inr (stolenItem, fromItems) \<Rightarrow>
                (let childItems = items child @ [items n ! i];
                     nItems = (items n)[i := stolenItem]
                 in if length (children stealFrom) > 0 then
                      (case removeAt (children stealFrom) 0 of
                         Inl e \<Rightarrow> Inl e
                       | Inr (c, fromChildren) \<Rightarrow>
                           Inr (Node nItems
                                  ((children n)[i := Node childItems (children child @ [c]),
                                                i + 1 := Node fromItems fromChildren]),
                                fl))
                    else
                      Inr (Node nItems
                             ((children n)[i := Node childItems (children child),
                                           i + 1 := Node fromItems (children stealFrom)]),
                           fl)))
         else if i \<ge> length (items n) \<and> i = 0 then Inl IndexOutOfRange
         else
           (let i' = (if i \<ge> length (items n) then i - 1 else i);
                child' = children n ! i'
            in case removeAt (items n) i' of
                 Inl e \<Rightarrow> Inl e
               | Inr (mergeItem, nItems) \<Rightarrow>
                   (case removeAt (children n) (i' + 1) of
                      Inl e \<Rightarrow> Inl e
                    | Inr (mergeChild, nChildren) \<Rightarrow>
                        Inr (Node nItems
                               (nChildren[i' := Node (items child' @ [mergeItem] @ items mergeChild)
                                                     (children child' @ children mergeChild)]),
                             t_freeNode fl mergeChild))))
      else Inl IndexOutOfRange)"

text \<open>
  \<open>node.remove\<close> and \<open>node.growChildAndRemove\<close> call each other, and on a tree that is
  not ordered the retry may repeat without end; both take fuel, one unit a call, and
  \<open>None\<close> is the call that has not returned. A returned call gives the removed item (nil
  when none), the receiver and the pool.
\<close>

fun remove_node ::
  "nat \<Rightarrow> ('a \<Rightarrow> 'a Item \<Rightarrow> 'c \<Rightarrow> bool) \<Rightarrow> 'c \<Rightarrow> 'a node \<Rightarrow> 'a Item \<Rightarrow> nat \<Rightarrow> toRemove \<Rightarrow>
     'a FreeList \<Rightarrow> (error + ('a Item \<times> 'a node \<times> 'a FreeList)) option"
and growChildAndRemove ::
  "nat \<Rightarrow> ('a \<Rightarrow> 'a Item \<Rightarrow> 'c \<Rightarrow> bool) \<Rightarrow> 'c \<Rightarrow> 'a node \<Rightarrow> nat \<Rightarrow> 'a Item \<Rightarrow> nat \<Rightarrow>
     toRemove \<Rightarrow> 'a FreeList \<Rightarrow> (error + ('a Item \<times> 'a node \<times> 'a FreeList)) option"
where
  "remove_node 0 Less ctx n item minItems typ fl = None"
| "remove_node (Suc k) Less ctx n item minItems typ fl =
     (case remove_switch Less ctx n item typ of
        Inl e \<Rightarrow> Some (Inl e)
      | Inr (Inl (out, n')) \<Rightarrow> Some (Inr (out, n', fl))
      | Inr (Inr (i, found)) \<Rightarrow>
          if i < length (children n) then
            (let child = children n ! i in
             if length (items child) \<le> minItems then
               growChildAndRemove k Less ctx n i item minItems typ fl
             else if found then
               (if i < length (items n) then
                  (case remove_node k Less ctx child None minItems removeMax fl of
                     None \<Rightarrow> None
                   | Some (Inl e) \<Rightarrow> Some (Inl e)
                   | Some (Inr (pred, child', fl')) \<Rightarrow>
                       Some (Inr (items n ! i,
                                  Node ((items n)[i := pred]) ((children n)[i := child']),
                                  fl')))
                else Some (Inl IndexOutOfRange))
             else
               (case remove_node k Less ctx child item minItems typ fl of
                  None \<Rightarrow> None
                | Some (Inl e) \<Rightarrow> Some (Inl e)
                | Some (Inr (out, child', fl')) \<Rightarrow>
                    Some (Inr (out, Node (items n) ((children n)[i := child']), fl'))))
          else Some (Inl IndexOutOfRange))"
| "growChildAndRemove 0 Less ctx n i item minItems typ fl = None"
| "growChildAndRemove (Suc k) Less ctx n i item minItems typ fl =
     (case growChild n i minItems fl of
        Inl e \<Rightarrow> Some (Inl e)
      | Inr (n', fl') \<Rightarrow> remove_node k Less ctx n' item minItems typ fl')"

declare remove_node.simps(2) [simp del] growChildAndRemove.simps(2) [simp del]

subsection \<open>The tree operations\<close>

text \<open>
  The file ends inside the comment of \<open>iterate\<close>: the methods of \<open>BTree\<close> and the
  traversal are not part of it. What the claims about whole trees need is modelled from the
  specification, on top of the node methods above.
\<close>

text \<open>Modelled from the spec: "\<open>maxItems = 2d - 1\<close>, \<open>minItems = d - 1\<close>", whose methods are
  not part of the file.\<close>

definition maxItems :: "('a, 'c) BTree \<Rightarrow> nat" where
  "maxItems t = nat (t_degree t * 2 - 1)"

definition minItems :: "('a, 'c) BTree \<Rightarrow> nat" where
  "minItems t = nat (t_degree t - 1)"

text \<open>
  Modelled from the spec: \<open>replaceOrInsert\<close>, which is not part of the file. "Rejects a
  null/absent item with invalidArgument"; "if empty, create a fresh root with {x}; else if
  the root is full (maxItems items), split it: allocate a new root whose items are {pivot}
  and whose children are {oldRoot, newSibling}, then recurse into it. Delegate to
  root.insert. Increment length if nothing was replaced." Splits use \<open>i = maxItems/2\<close>, and
  new nodes are taken from the pool.
\<close>

definition ReplaceOrInsert ::
  "('a \<Rightarrow> 'a Item \<Rightarrow> 'c \<Rightarrow> bool) \<Rightarrow> ('a, 'c) BTree \<Rightarrow> 'a Item \<Rightarrow>
     error + ('a Item \<times> ('a, 'c) BTree)"
where
  "ReplaceOrInsert Less t item =
     (if item = None then Inl (InvalidArgument ''nil item being added to BTree'')
      else
        (case t_root t of
           None \<Rightarrow>
             (let (r, fl) = t_newNode (t_freelist t) in
              Inr (None, t\<lparr>t_root := Some (Node [item] []), t_freelist := fl,
                           t_length := t_length t + 1\<rparr>))
         | Some r \<Rightarrow>
             (case (if length (items r) \<ge> maxItems t then
                      (case split_node r (maxItems t div 2) (t_freelist t) of
                         Inl e \<Rightarrow> Inl e
                       | Inr (pivot, oldRoot, newSibling, fl) \<Rightarrow>
                           (let (r', fl') = t_newNode fl in
                            Inr (Node [pivot] [oldRoot, newSibling], fl')))
                    else Inr (r, t_freelist t)) of
                Inl e \<Rightarrow> Inl e
              | Inr (r1, fl1) \<Rightarrow>
                  (case insert_node Less (t_ctx t) r1 item (maxItems t) fl1 of
                     Inl e \<Rightarrow> Inl e
                   | Inr (out, r2, fl2) \<Rightarrow>
                       Inr (out, t\<lparr>t_root := Some r2, t_freelist := fl2,
                                    t_length := (if out = None then t_length t + 1
                                                 else t_length t)\<rparr>)))))"

text \<open>
  Modelled from the spec: \<open>deleteInternal\<close> and \<open>delete\<close>, which are not part of the file.
  On an empty tree the result is absent. "After each delete-internal call: if the root
  becomes item-empty but has a child, collapse the root to its single child and release
  the old root to the free-list; if the root becomes both item- and child-empty, set root
  to absent. Decrement length when something was removed."
\<close>

definition deleteInternal ::
  "nat \<Rightarrow> ('a \<Rightarrow> 'a Item \<Rightarrow> 'c \<Rightarrow> bool) \<Rightarrow> ('a, 'c) BTree \<Rightarrow> 'a Item \<Rightarrow> toRemove \<Rightarrow>
     (error + ('a Item \<times> ('a, 'c) BTree)) option"
where
  "deleteInternal k Less t item typ =
     (case t_root t of
        None \<Rightarrow> Some (Inr (None, t))
      | Some r \<Rightarrow>
          (case remove_node k Less (t_ctx t) r item (minItems t) typ (t_freelist t) of
             None \<Rightarrow> None
           | Some (Inl e) \<Rightarrow> Some (Inl e)
           | Some (Inr (out, r', fl)) \<Rightarrow>
               (let (root', fl') =
                      (if items r' = [] \<and> children r' \<noteq> []
                       then (Some (children r' ! 0), t_freeNode fl r')
                       else if items r' = [] \<and> children r' = [] then (None, fl)
                       else (Some r', fl))
                in Some (Inr (out, t\<lparr>t_root := root', t_freelist := fl',
                                       t_length := (if out \<noteq> None then t_length t - 1
                                                    else t_length t)\<rparr>)))))"

definition Delete ::
  "nat \<Rightarrow> ('a \<Rightarrow> 'a Item \<Rightarrow> 'c \<Rightarrow> bool) \<Rightarrow> ('a, 'c) BTree \<Rightarrow> 'a Item \<Rightarrow>
     (error + ('a Item \<times> ('a, 'c) BTree)) option"
where
  "Delete k Less t item = deleteInternal k Less t item removeItem"

text \<open>Modelled from the spec: \<open>get\<close>, \<open>has\<close> and \<open>length\<close> of the tree, which are not part of
  the file: "delegate to root"; on an empty tree \<open>get\<close> returns absent.\<close>

definition Get ::
  "('a \<Rightarrow> 'a Item \<Rightarrow> 'c \<Rightarrow> bool) \<Rightarrow> ('a, 'c) BTree \<Rightarrow> 'a Item \<Rightarrow> error + 'a Item"
where
  "Get Less t key =
     (case t_root t of None \<Rightarrow> Inr None | Some r \<Rightarrow> get_node Less (t_ctx t) r key)"

definition Has ::
  "('a \<Rightarrow> 'a Item \<Rightarrow> 'c \<Rightarrow> bool) \<Rightarrow> ('a, 'c) BTree \<Rightarrow> 'a Item \<Rightarrow> error + bool"
where
  "Has Less t key = (case Get Less t key of Inl e \<Rightarrow> Inl e | Inr r \<Rightarrow> Inr (r \<noteq> None))"

definition Len :: "('a, 'c) BTree \<Rightarrow> nat" where
  "Len t = t_length t"

text \<open>
  Modelled from the spec: the full ascending traversal (section 4.3 with no bounds), which
  is not part of the file. "For indices k: if internal, recurse into children[k]; invoke
  hit(items[k]). If internal, recurse into children[len(items)] to finish." \<open>interleave\<close>
  puts the sequences of the children around the items of the node.
\<close>

fun interleave :: "'b list list \<Rightarrow> 'b list \<Rightarrow> 'b list" where
  "interleave [] s = s"
| "interleave (l # ls) [] = l"
| "interleave (l # ls) (x # s) = l @ x # interleave ls s"

fun inorder :: "'a node \<Rightarrow> 'a Item list" where
  "inorder (Node s cs) = interleave (map inorder cs) s"

definition Ascend :: "('a, 'c) BTree \<Rightarrow> 'a Item list" where
  "Ascend t = (case t_root t of None \<Rightarrow> [] | Some r \<Rightarrow> inorder r)"

section \<open>Invariants\<close>

text \<open>Arity: a leaf has no children, an internal node one child more than items.\<close>

fun arity :: "'a node \<Rightarrow> bool" where
  "arity (Node s cs) = ((length cs = 0 \<or> length cs = length s + 1) \<and> (\<forall>c \<in> set cs. arity c))"

text \<open>Arity and height balance together: every leaf of \<open>n\<close> is at depth \<open>h\<close>.\<close>

fun shape :: "nat \<Rightarrow> 'a node \<Rightarrow> bool" where
  "shape 0 (Node s cs) = (cs = [])"
| "shape (Suc h) (Node s cs) = (length cs = length s + 1 \<and> (\<forall>c \<in> set cs. shape h c))"

text \<open>The lower item bound: every node below \<open>n\<close> holds at least \<open>m\<close> items.\<close>

fun bounded :: "nat \<Rightarrow> 'a node \<Rightarrow> bool" where
  "bounded m (Node s cs) = (\<forall>c \<in> set cs. m \<le> length (items c) \<and> bounded m c)"

text \<open>The pool holds blank nodes only, and no more than its capacity.\<close>

definition blank :: "'a node \<Rightarrow> bool" where
  "blank n = (items n = [] \<and> children n = [])"

definition pool_ok :: "'a FreeList \<Rightarrow> bool" where
  "pool_ok f = (length (freelist f) \<le> cap f \<and> (\<forall>p \<in> set (freelist f). blank p))"

text \<open>
  The contract of \<open>Less\<close>: a strict weak ordering of the items that are not nil. Two
  such items are equivalent when neither is less than the other.
\<close>

definition strict_weak :: "('a \<Rightarrow> 'a Item \<Rightarrow> 'c \<Rightarrow> bool) \<Rightarrow> 'c \<Rightarrow> bool" where
  "strict_weak Less ctx =
     ((\<forall>x. \<not> Less x (Some x) ctx)
      \<and> (\<forall>x y z. Less x (Some y) ctx \<longrightarrow> Less y (Some z) ctx \<longrightarrow> Less x (Some z) ctx)
      \<and> (\<forall>x y z. Less x (Some y) ctx \<longrightarrow> Less x (Some z) ctx \<or> Less z (Some y) ctx))"

fun item_less :: "('a \<Rightarrow> 'a Item \<Rightarrow> 'c \<Rightarrow> bool) \<Rightarrow> 'c \<Rightarrow> 'a Item \<Rightarrow> 'a Item \<Rightarrow> bool" where
  "item_less Less ctx (Some x) (Some y) = Less x (Some y) ctx"
| "item_less Less ctx a b = False"

definition equivalent :: "('a \<Rightarrow> 'a Item \<Rightarrow> 'c \<Rightarrow> bool) \<Rightarrow> 'c \<Rightarrow> 'a Item \<Rightarrow> 'a Item \<Rightarrow> bool" where
  "equivalent Less ctx a b = (a \<noteq> None \<and> b \<noteq> None \<and> \<not> item_less Less ctx a b \<and> \<not> item_less Less ctx b a)"

text \<open>A sequence of items is ascending: no nil, strictly increasing under \<open>Less\<close>.\<close>

definition ascending :: "('a \<Rightarrow> 'a Item \<Rightarrow> 'c \<Rightarrow> bool) \<Rightarrow> 'c \<Rightarrow> 'a Item list \<Rightarrow> bool" where
  "ascending Less ctx s = (None \<notin> set s \<and> sorted_wrt (item_less Less ctx) s)"

text \<open>
  The three outcomes of the growing step of \<open>growChildAndRemove\<close> in closed form: the
  receiver after stealing for child \<open>i\<close> from its left sibling, after stealing from its
  right sibling, and after merging child \<open>j\<close> with child \<open>j + 1\<close>.
\<close>

definition stealLeft :: "'a node \<Rightarrow> nat \<Rightarrow> 'a node" where
  "stealLeft n i =
     (let l = children n ! (i - 1); c = children n ! i in
      Node ((items n)[i - 1 := last (items l)])
           ((children n)[i - 1 := Node (butlast (items l)) (butlast (children l)),
                         i := Node (items n ! (i - 1) # items c)
                                   ((if children l = [] then [] else [last (children l)])
                                      @ children c)]))"

definition stealRight :: "'a node \<Rightarrow> nat \<Rightarrow> 'a node" where
  "stealRight n i =
     (let c = children n ! i; r = children n ! (i + 1) in
      Node ((items n)[i := hd (items r)])
           ((children n)[i := Node (items c @ [items n ! i])
                                   (children c
                                      @ (if children r = [] then [] else [hd (children r)])),
                         i + 1 := Node (tl (items r)) (tl (children r))]))"

definition mergeAt :: "'a node \<Rightarrow> nat \<Rightarrow> 'a node" where
  "mergeAt n j =
     (let c = children n ! j; d = children n ! (j + 1) in
      Node (take j (items n) @ drop (j + 1) (items n))
           ((take (j + 1) (children n) @ drop (j + 2) (children n))
              [j := Node (items c @ [items n ! j] @ items d) (children c @ children d)]))"

text \<open>
  What a call of \<open>remove\<close> does to the ascending sequence \<open>xs\<close> of a subtree when it
  removes the largest item, the smallest item, or searches an item that is not stored:
  the item returned and the sequence left.
\<close>

definition removal :: "toRemove \<Rightarrow> 'a Item list \<Rightarrow> 'a Item \<Rightarrow> 'a Item list \<Rightarrow> bool" where
  "removal ty xs out ys =
     (if ty = removeMax then xs \<noteq> [] \<and> out = last xs \<and> ys = butlast xs
      else if ty = removeMin then xs \<noteq> [] \<and> out = hd xs \<and> ys = tl xs
      else out = None \<and> ys = xs)"

text \<open>
  The ordering of the specification's scenarios, where items are integers and \<open>less\<close> is
  \<open><\<close>; nothing is less than nil. The context is not used.
\<close>

definition int_Less :: "int \<Rightarrow> int Item \<Rightarrow> unit \<Rightarrow> bool" where
  "int_Less x b ctx = (case b of None \<Rightarrow> False | Some y \<Rightarrow> x < y)"

section \<open>Properties\<close>

subsection \<open>The pool\<close>


lemma newNode_pool:
  assumes "pool_ok f"
  shows "blank (fst (newNode f))" and "pool_ok (snd (newNode f))" and "cap (snd (newNode f)) = cap f"
  using assms
  by (auto simp: newNode_def pool_ok_def blank_def dest: in_set_butlastD)

lemma freeNode_pool:
  assumes "pool_ok f" and "blank n"
  shows "pool_ok (freeNode f n)"
  using assms by (auto simp: freeNode_def pool_ok_def)

lemma t_freeNode_pool: "pool_ok f \<Longrightarrow> pool_ok (t_freeNode f n)"
  by (simp add: t_freeNode_def freeNode_pool blank_def)

lemma t_newNode_blank:
  assumes "pool_ok f"
  shows "t_newNode f = (Node [] [], snd (newNode f))"
proof -
  have "blank (fst (newNode f))" using assms by (rule newNode_pool)
  then have "fst (newNode f) = Node [] []"
    by (cases "fst (newNode f)") (simp add: blank_def)
  then show ?thesis by (simp add: t_newNode_def prod_eq_iff)
qed

lemma split_node_blank:
  assumes "pool_ok fl" and "i < length (items n)"
    and "children n = [] \<or> i < length (children n)"
  shows "split_node n i fl =
           Inr (items n ! i, Node (take i (items n)) (take (i + 1) (children n)),
                Node (drop (i + 1) (items n)) (drop (i + 1) (children n)), snd (newNode fl))"
  using assms(2,3) by (auto simp: split_node_def Let_def t_newNode_blank [OF assms(1)])

subsection \<open>The order on items\<close>

lemma item_less_Some: "item_less Less ctx a b \<Longrightarrow> \<exists>x y. a = Some x \<and> b = Some y \<and> Less x (Some y) ctx"
  by (cases a; cases b) auto

lemma item_less_call: "b \<noteq> None \<Longrightarrow> Less x b ctx = item_less Less ctx (Some x) b"
  by (cases b) auto

lemma lt_irrefl: "strict_weak Less ctx \<Longrightarrow> \<not> item_less Less ctx a a"
  by (cases a) (auto simp: strict_weak_def)

lemma lt_trans:
  assumes "strict_weak Less ctx" and "item_less Less ctx a b" and "item_less Less ctx b c"
  shows "item_less Less ctx a c"
proof -
  obtain x y where 1: "a = Some x" "b = Some y" "Less x (Some y) ctx"
    using item_less_Some [OF assms(2)] by blast
  obtain z where 2: "c = Some z" "Less y (Some z) ctx"
    using item_less_Some [OF assms(3)] 1 by auto
  have "Less x (Some z) ctx"
    using assms(1) 1(3) 2(2) unfolding strict_weak_def by blast
  then show ?thesis by (simp add: 1 2)
qed

lemma lt_asym: "strict_weak Less ctx \<Longrightarrow> item_less Less ctx a b \<Longrightarrow> \<not> item_less Less ctx b a"
  by (metis lt_trans lt_irrefl)

lemma lt_negtrans:
  assumes "strict_weak Less ctx" and "item_less Less ctx a b" and "c \<noteq> None"
  shows "item_less Less ctx a c \<or> item_less Less ctx c b"
proof -
  obtain x y where 1: "a = Some x" "b = Some y" "Less x (Some y) ctx"
    using item_less_Some [OF assms(2)] by blast
  obtain z where 2: "c = Some z"
    using assms(3) by auto
  have "Less x (Some z) ctx \<or> Less z (Some y) ctx"
    using assms(1) 1(3) unfolding strict_weak_def by blast
  then show ?thesis by (simp add: 1 2)
qed

lemma lt_equiv_right:
  "strict_weak Less ctx \<Longrightarrow> item_less Less ctx a b \<Longrightarrow> equivalent Less ctx b c \<Longrightarrow> item_less Less ctx a c"
  using lt_negtrans [of Less ctx a b c] by (auto simp: equivalent_def)

lemma lt_equiv_left:
  "strict_weak Less ctx \<Longrightarrow> item_less Less ctx a b \<Longrightarrow> equivalent Less ctx a c \<Longrightarrow> item_less Less ctx c b"
  using lt_negtrans [of Less ctx a b c] by (auto simp: equivalent_def)

lemma ascending_nth:
  "ascending Less ctx s \<Longrightarrow> p < q \<Longrightarrow> q < length s \<Longrightarrow> item_less Less ctx (s ! p) (s ! q)"
  by (simp add: ascending_def sorted_wrt_iff_nth_less)

lemma ascending_nth_Some: "ascending Less ctx s \<Longrightarrow> p < length s \<Longrightarrow> s ! p \<noteq> None"
  by (metis ascending_def nth_mem)

subsection \<open>Binary search\<close>

lemma find_loop_done: "\<not> i < j \<Longrightarrow> find_loop Less ctx s item i j = Inr i"
  by (subst find_loop.simps) simp

lemma find_loop_step:
  "i < j \<Longrightarrow> h = i + (j - i) div 2 \<Longrightarrow>
   find_loop Less ctx s item i j =
     (case item of
        None \<Rightarrow> Inl NilDereference
      | Some x \<Rightarrow>
          if h < length s then
            (if \<not> Less x (s ! h) ctx then find_loop Less ctx s item (h + 1) j
             else find_loop Less ctx s item i h)
          else Inl IndexOutOfRange)"
  by (subst find_loop.simps) (auto simp: Let_def split: option.splits)

lemma find_loop_bounds:
  "find_loop Less ctx s item i j = Inr k \<Longrightarrow> i \<le> j \<Longrightarrow> i \<le> k \<and> k \<le> j"
proof (induction Less ctx s item i j rule: find_loop.induct)
  case (1 Less ctx s item i j)
  show ?case
  proof (cases "i < j")
    case False
    then show ?thesis using "1.prems" by (simp add: find_loop_done)
  next
    case True
    define h where "h = i + (j - i) div 2"
    have h: "i \<le> h" "h < j" using True by (auto simp: h_def)
    note st = find_loop_step [OF True h_def, of Less ctx s item]
    obtain x where x: "item = Some x"
      using "1.prems" True st by (cases item) auto
    have hs: "h < length s"
      using "1.prems" True st by (auto simp: x split: if_splits)
    show ?thesis
    proof (cases "Less x (s ! h) ctx")
      case False
      then have "find_loop Less ctx s item (h + 1) j = Inr k"
        using "1.prems"(1) True hs st by (simp add: x)
      then have "h + 1 \<le> k \<and> k \<le> j"
        using "1.IH"(1) [OF True h_def x hs] False h by simp
      then show ?thesis using h by simp
    next
      case L: True
      then have "find_loop Less ctx s item i h = Inr k"
        using "1.prems"(1) True hs st by (simp add: x)
      then have "i \<le> k \<and> k \<le> h"
        using "1.IH"(2) [OF True h_def x hs] L h by simp
      then show ?thesis using h by simp
    qed
  qed
qed

lemma find_item_bounds:
  assumes "find_item Less ctx s item = Inr (i, found)"
  shows "i \<le> length s" and "found \<Longrightarrow> i < length s"
proof -
  obtain k where k: "find_loop Less ctx s item 0 (length s) = Inr k"
    using assms by (auto simp: find_item_def split: sum.splits)
  have kb: "k \<le> length s" using find_loop_bounds [OF k] by simp
  show "i \<le> length s"
    using assms k kb by (auto simp: find_item_def split: if_splits option.splits)
  show "found \<Longrightarrow> i < length s"
    using assms k kb by (auto simp: find_item_def split: if_splits option.splits)
qed

lemma find_loop_asc:
  assumes sw: "strict_weak Less ctx" and asc: "ascending Less ctx s"
  shows "i \<le> j \<Longrightarrow> j \<le> length s \<Longrightarrow>
         (\<forall>p<i. \<not> item_less Less ctx (Some x) (s ! p)) \<Longrightarrow>
         (\<forall>p. j \<le> p \<and> p < length s \<longrightarrow> item_less Less ctx (Some x) (s ! p)) \<Longrightarrow>
         \<exists>k. find_loop Less ctx s (Some x) i j = Inr k \<and> k \<le> length s
             \<and> (\<forall>p<k. \<not> item_less Less ctx (Some x) (s ! p))
             \<and> (\<forall>p. k \<le> p \<and> p < length s \<longrightarrow> item_less Less ctx (Some x) (s ! p))"
proof (induction "j - i" arbitrary: i j rule: less_induct)
  case less
  show ?case
  proof (cases "i < j")
    case False
    then have "i = j" using less.prems by simp
    then show ?thesis using less.prems by (simp add: find_loop_done)
  next
    case True
    define h where "h = i + (j - i) div 2"
    have h: "i \<le> h" "h < j" using True by (auto simp: h_def)
    have hs: "h < length s" using h less.prems by simp
    have nn: "s ! h \<noteq> None" using asc hs by (rule ascending_nth_Some)
    show ?thesis
    proof (cases "item_less Less ctx (Some x) (s ! h)")
      case False
      have low: "\<forall>p<h + 1. \<not> item_less Less ctx (Some x) (s ! p)"
      proof (intro allI impI)
        fix p assume p: "p < h + 1"
        show "\<not> item_less Less ctx (Some x) (s ! p)"
        proof (cases "p = h")
          case True then show ?thesis using False by simp
        next
          case ph: False
          then have "item_less Less ctx (s ! p) (s ! h)"
            using ascending_nth [OF asc, of p h] p hs by simp
          then show ?thesis using False lt_trans [OF sw] by blast
        qed
      qed
      have "j - (h + 1) < j - i" using h by simp
      from less.hyps [OF this _ less.prems(2) low less.prems(4)] h
      obtain k where "find_loop Less ctx s (Some x) (h + 1) j = Inr k \<and> k \<le> length s
             \<and> (\<forall>p<k. \<not> item_less Less ctx (Some x) (s ! p))
             \<and> (\<forall>p. k \<le> p \<and> p < length s \<longrightarrow> item_less Less ctx (Some x) (s ! p))"
        by auto
      moreover have "find_loop Less ctx s (Some x) i j = find_loop Less ctx s (Some x) (h + 1) j"
        using True hs False nn by (simp add: find_loop_step [OF True h_def] item_less_call)
      ultimately show ?thesis by simp
    next
      case L: True
      have high: "\<forall>p. h \<le> p \<and> p < length s \<longrightarrow> item_less Less ctx (Some x) (s ! p)"
      proof (intro allI impI)
        fix p assume p: "h \<le> p \<and> p < length s"
        show "item_less Less ctx (Some x) (s ! p)"
        proof (cases "p = h")
          case True then show ?thesis using L by simp
        next
          case False
          then have "item_less Less ctx (s ! h) (s ! p)"
            using ascending_nth [OF asc, of h p] p by simp
          then show ?thesis using L lt_trans [OF sw] by blast
        qed
      qed
      have "h - i < j - i" using h by simp
      from less.hyps [OF this h(1) _ less.prems(3) high] hs
      obtain k where "find_loop Less ctx s (Some x) i h = Inr k \<and> k \<le> length s
             \<and> (\<forall>p<k. \<not> item_less Less ctx (Some x) (s ! p))
             \<and> (\<forall>p. k \<le> p \<and> p < length s \<longrightarrow> item_less Less ctx (Some x) (s ! p))"
        by auto
      moreover have "find_loop Less ctx s (Some x) i j = find_loop Less ctx s (Some x) i h"
        using True hs L nn by (simp add: find_loop_step [OF True h_def] item_less_call)
      ultimately show ?thesis by simp
    qed
  qed
qed

lemma find_item_asc:
  assumes sw: "strict_weak Less ctx" and asc: "ascending Less ctx s"
  shows "\<exists>i found. find_item Less ctx s (Some x) = Inr (i, found) \<and> i \<le> length s
           \<and> (found \<longrightarrow> i < length s \<and> equivalent Less ctx (s ! i) (Some x))
           \<and> (\<forall>p<i. item_less Less ctx (s ! p) (Some x))
           \<and> (\<forall>p. (if found then i < p else i \<le> p) \<and> p < length s
                  \<longrightarrow> item_less Less ctx (Some x) (s ! p))"
proof -
  have "\<exists>k. find_loop Less ctx s (Some x) 0 (length s) = Inr k \<and> k \<le> length s
             \<and> (\<forall>p<k. \<not> item_less Less ctx (Some x) (s ! p))
             \<and> (\<forall>p. k \<le> p \<and> p < length s \<longrightarrow> item_less Less ctx (Some x) (s ! p))"
    by (rule find_loop_asc [OF sw asc]) auto
  then obtain k where k: "find_loop Less ctx s (Some x) 0 (length s) = Inr k" "k \<le> length s"
      and low: "\<forall>p<k. \<not> item_less Less ctx (Some x) (s ! p)"
      and high: "\<forall>p. k \<le> p \<and> p < length s \<longrightarrow> item_less Less ctx (Some x) (s ! p)"
    by blast
  have below: "item_less Less ctx (s ! p) (Some x)" if "p < k" "item_less Less ctx (s ! q) (Some x)" "p \<le> q" "q < k" for p q
  proof (cases "p = q")
    case True then show ?thesis using that by simp
  next
    case False
    then have "item_less Less ctx (s ! p) (s ! q)"
      using ascending_nth [OF asc, of p q] that k by simp
    then show ?thesis using that lt_trans [OF sw] by blast
  qed
  show ?thesis
  proof (cases "k = 0")
    case True
    then have "find_item Less ctx s (Some x) = Inr (0, False)"
      using k by (simp add: find_item_def)
    then show ?thesis using high True by auto
  next
    case False
    then have k1: "k - 1 < length s" "k - 1 < k" using k by auto
    obtain y where y: "s ! (k - 1) = Some y"
      using ascending_nth_Some [OF asc k1(1)] by auto
    show ?thesis
    proof (cases "Less y (Some x) ctx")
      case True
      then have lt1: "item_less Less ctx (s ! (k - 1)) (Some x)" using y by simp
      have "\<forall>p<k. item_less Less ctx (s ! p) (Some x)"
        using below [OF _ lt1] k1 by auto
      moreover have "find_item Less ctx s (Some x) = Inr (k, False)"
        using k False True y by (simp add: find_item_def)
      ultimately show ?thesis using k high by auto
    next
      case nl: False
      then have "\<not> item_less Less ctx (s ! (k - 1)) (Some x)" using y by simp
      moreover have "\<not> item_less Less ctx (Some x) (s ! (k - 1))" using low k1 by blast
      ultimately have eq: "equivalent Less ctx (s ! (k - 1)) (Some x)"
        using y by (simp add: equivalent_def)
      have lo: "item_less Less ctx (s ! p) (Some x)" if "p < k - 1" for p
      proof -
        have "item_less Less ctx (s ! p) (s ! (k - 1))"
          using ascending_nth [OF asc, of p "k - 1"] that k1 by simp
        then show ?thesis using lt_equiv_right [OF sw _ eq] by blast
      qed
      have hi: "item_less Less ctx (Some x) (s ! p)" if "k - 1 < p" "p < length s" for p
        using high that by simp
      have "find_item Less ctx s (Some x) = Inr (k - 1, True)"
        using k False nl y by (simp add: find_item_def)
      then show ?thesis using eq lo hi k1 by auto
    qed
  qed
qed

lemma find_item_unique:
  assumes sw: "strict_weak Less ctx" and asc: "ascending Less ctx s"
    and i: "i \<le> length s"
    and f: "found \<Longrightarrow> i < length s \<and> equivalent Less ctx (s ! i) (Some x)"
    and lo: "\<And>p. p < i \<Longrightarrow> item_less Less ctx (s ! p) (Some x)"
    and hi: "\<And>p. (if found then i < p else i \<le> p) \<Longrightarrow> p < length s \<Longrightarrow> item_less Less ctx (Some x) (s ! p)"
  shows "find_item Less ctx s (Some x) = Inr (i, found)"
proof -
  obtain i' found' where r: "find_item Less ctx s (Some x) = Inr (i', found')" "i' \<le> length s"
      and f': "found' \<longrightarrow> i' < length s \<and> equivalent Less ctx (s ! i') (Some x)"
      and lo': "\<forall>p<i'. item_less Less ctx (s ! p) (Some x)"
      and hi': "\<forall>p. (if found' then i' < p else i' \<le> p) \<and> p < length s
                  \<longrightarrow> item_less Less ctx (Some x) (s ! p)"
    using find_item_asc [OF sw asc, of x] by blast
  have "\<not> i' < i"
  proof
    assume a: "i' < i"
    then have 1: "item_less Less ctx (s ! i') (Some x)" using lo by simp
    show False
    proof (cases found')
      case True
      then show False using f' 1 by (simp add: equivalent_def)
    next
      case False
      then have "item_less Less ctx (Some x) (s ! i')" using hi' a i by simp
      then show False using 1 lt_asym [OF sw] by blast
    qed
  qed
  moreover have "\<not> i < i'"
  proof
    assume a: "i < i'"
    then have 1: "item_less Less ctx (s ! i) (Some x)" using lo' by simp
    show False
    proof (cases found)
      case True
      then show False using f 1 by (simp add: equivalent_def)
    next
      case False
      then have "item_less Less ctx (Some x) (s ! i)" using hi [of i] a r by simp
      then show False using 1 lt_asym [OF sw] by blast
    qed
  qed
  ultimately have ii: "i' = i" by simp
  have "found' = found"
  proof (cases found)
    case True
    show ?thesis
    proof (rule ccontr)
      assume "found' \<noteq> found"
      then have "\<not> found'" using True by simp
      then have "item_less Less ctx (Some x) (s ! i)" using hi' ii f True by simp
      then show False using f True by (simp add: equivalent_def)
    qed
  next
    case False
    show ?thesis
    proof (rule ccontr)
      assume "found' \<noteq> found"
      then have t: "found'" using False by simp
      then have "item_less Less ctx (Some x) (s ! i)" using hi [of i] False f' ii by simp
      then show False using f' t ii by (simp add: equivalent_def)
    qed
  qed
  then show ?thesis using r ii by simp
qed

lemma find_item_Nil: "find_item Less ctx [] item = Inr (0, False)"
  by (simp add: find_item_def find_loop_done)

lemma strict_weak_int_Less: "strict_weak int_Less ()"
  by (auto simp: strict_weak_def int_Less_def)

text \<open>
  C5. On a sequence that is strictly ascending under \<open>Less\<close>, \<open>find\<close> returns the leftmost
  index of an item equivalent to the probe, with \<open>true\<close>; when no item is equivalent it
  returns the index of the first item greater than the probe (the length when there is
  none), with \<open>false\<close>. On the empty sequence it returns \<open>(0, false)\<close>.
\<close>

theorem find_item_correct:
  assumes "strict_weak Less ctx" and "ascending Less ctx s"
  shows "(\<exists>i found. find_item Less ctx s (Some x) = Inr (i, found) \<and> i \<le> length s
            \<and> (found \<longrightarrow> i < length s \<and> equivalent Less ctx (s ! i) (Some x)
                          \<and> (\<forall>p<i. \<not> equivalent Less ctx (s ! p) (Some x)))
            \<and> (\<not> found \<longrightarrow> (\<forall>p<length s. \<not> equivalent Less ctx (s ! p) (Some x))
                          \<and> (\<forall>p<i. \<not> item_less Less ctx (Some x) (s ! p))
                          \<and> (i < length s \<longrightarrow> item_less Less ctx (Some x) (s ! i))))
         \<and> find_item Less ctx [] item = Inr (0, False)"
proof -
  obtain i found where r: "find_item Less ctx s (Some x) = Inr (i, found)" "i \<le> length s"
      and f: "found \<longrightarrow> i < length s \<and> equivalent Less ctx (s ! i) (Some x)"
      and lo: "\<forall>p<i. item_less Less ctx (s ! p) (Some x)"
      and hi: "\<forall>p. (if found then i < p else i \<le> p) \<and> p < length s
                  \<longrightarrow> item_less Less ctx (Some x) (s ! p)"
    using find_item_asc [OF assms, of x] by blast
  have lo_ne: "\<forall>p<i. \<not> equivalent Less ctx (s ! p) (Some x)"
    using lo by (simp add: equivalent_def)
  have lo_ng: "\<forall>p<i. \<not> item_less Less ctx (Some x) (s ! p)"
    using lo lt_asym [OF assms(1)] by blast
  have none: "\<forall>p<length s. \<not> equivalent Less ctx (s ! p) (Some x)" if "\<not> found"
  proof (intro allI impI)
    fix p assume p: "p < length s"
    show "\<not> equivalent Less ctx (s ! p) (Some x)"
    proof (cases "p < i")
      case True then show ?thesis using lo_ne by simp
    next
      case False
      then have "item_less Less ctx (Some x) (s ! p)" using hi that p by simp
      then show ?thesis by (simp add: equivalent_def)
    qed
  qed
  have first: "i < length s \<longrightarrow> item_less Less ctx (Some x) (s ! i)" if "\<not> found"
    using hi that by simp
  show ?thesis
    using r f lo_ne lo_ng none first by (auto simp: find_item_Nil)
qed

theorem find_item_correct_witness:
  "strict_weak int_Less () \<and> ascending int_Less () [Some 1, Some 3, Some 5]
   \<and> find_item int_Less () [Some 1, Some 3, Some 5] (Some 3) = Inr (1, True)
   \<and> equivalent int_Less () ([Some 1, Some 3, Some 5] ! 1) (Some 3)
   \<and> find_item int_Less () [Some 1, Some 3, Some 5] (Some 4) = Inr (2, False)
   \<and> item_less int_Less () (Some 4) ([Some 1, Some 3, Some 5] ! 2)"
proof -
  have a: "ascending int_Less () [Some 1, Some 3, Some 5]"
    by (simp add: ascending_def int_Less_def)
  have 1: "find_item int_Less () [Some 1, Some 3, Some 5] (Some 3) = Inr (1, True)"
    by (simp add: find_item_def find_loop.simps int_Less_def)
  have 2: "find_item int_Less () [Some 1, Some 3, Some 5] (Some 4) = Inr (2, False)"
    by (simp add: find_item_def find_loop.simps int_Less_def)
  show ?thesis
    using find_item_correct [OF strict_weak_int_Less a, of 3 None]
          find_item_correct [OF strict_weak_int_Less a, of 4 None]
    by (simp add: strict_weak_int_Less a 1 2 equivalent_def int_Less_def)
qed

text \<open>
  C8. \<open>New\<close> and \<open>NewWithFreeList\<close> fail with the panic "bad degree" (the specification's
  invalidArgument) when the degree is below two. From two on, \<open>New\<close> returns an empty tree
  with its own empty pool of capacity 32, and \<open>NewWithFreeList\<close> an empty tree with the
  pool it was given.
\<close>

theorem New_degree:
  "(degree < 2 \<longrightarrow>
      (New degree ctx :: error + ('a, 'c) BTree) = Inl (InvalidArgument ''bad degree'')
      \<and> NewWithFreeList degree (f :: 'a FreeList) ctx = Inl (InvalidArgument ''bad degree''))
   \<and> (2 \<le> degree \<longrightarrow>
        (New degree ctx :: error + ('a, 'c) BTree)
          = Inr \<lparr>t_degree = degree, t_freelist = \<lparr>freelist = [], cap = 32\<rparr>, t_ctx = ctx,
                 t_root = None, t_length = 0\<rparr>
      \<and> NewWithFreeList degree f ctx
          = Inr \<lparr>t_degree = degree, t_freelist = f, t_ctx = ctx, t_root = None, t_length = 0\<rparr>)"
  by (simp add: New_def NewWithFreeList_def NewFreeList_def DefaultFreeListSize_def)

theorem New_degree_witness:
  "(New 1 () :: error + (int, unit) BTree) = Inl (InvalidArgument ''bad degree'')
   \<and> NewWithFreeList (- 3) \<lparr>freelist = [] :: int node list, cap = 4\<rparr> ()
       = Inl (InvalidArgument ''bad degree'')
   \<and> (New 2 () :: error + (int, unit) BTree)
       = Inr \<lparr>t_degree = 2, t_freelist = \<lparr>freelist = [], cap = 32\<rparr>, t_ctx = (),
              t_root = None, t_length = 0\<rparr>
   \<and> NewWithFreeList 2 \<lparr>freelist = [] :: int node list, cap = 4\<rparr> ()
       = Inr \<lparr>t_degree = 2, t_freelist = \<lparr>freelist = [], cap = 4\<rparr>, t_ctx = (),
              t_root = None, t_length = 0\<rparr>"
  using New_degree [of 1 "()" "\<lparr>freelist = [] :: int node list, cap = 4\<rparr>"]
        New_degree [of "- 3" "()" "\<lparr>freelist = [] :: int node list, cap = 4\<rparr>"]
        New_degree [of 2 "()" "\<lparr>freelist = [] :: int node list, cap = 4\<rparr>"]
  by simp

subsection \<open>The pool under the node operations\<close>

lemma newNode_cap: "cap (snd (newNode f)) = cap f"
  by (simp add: newNode_def)

lemma freeNode_cap: "cap (freeNode f n) = cap f"
  by (simp add: freeNode_def)

lemma freeNode_length: "pool_ok f \<Longrightarrow> length (freelist (freeNode f n)) \<le> cap f"
  by (simp add: freeNode_def pool_ok_def)

lemma split_node_pool:
  assumes "split_node n i fl = Inr (item, a, b, fl')"
  shows "fl' = snd (newNode fl)"
  using assms by (auto simp: split_node_def Let_def t_newNode_def split: if_splits prod.splits)

lemma growChild_pool:
  assumes "growChild n i m fl = Inr (n', fl')"
  shows "fl' = fl \<or> (\<exists>c. fl' = t_freeNode fl c)"
  using assms
  by (auto simp: growChild_def Let_def split: if_splits sum.splits prod.splits)

lemma growChild_pool_ok:
  assumes "growChild n i m fl = Inr (n', fl')" and "pool_ok fl"
  shows "pool_ok fl'" and "cap fl' = cap fl"
proof -
  show "pool_ok fl'"
    using growChild_pool [OF assms(1)] assms(2) by (auto simp: t_freeNode_pool)
  show "cap fl' = cap fl"
    using growChild_pool [OF assms(1)] by (auto simp: t_freeNode_def freeNode_cap)
qed

text \<open>
  C9. With a pool that holds blank nodes only and no more than its capacity: \<open>newNode\<close>
  returns a blank node, popped or new, and leaves such a pool; \<open>freeNode\<close> pushes exactly
  when the length is below the capacity and drops the node otherwise; the capacity never
  changes and the length never exceeds it. The node a merge gives back is emptied on the
  way (the tree's \<open>freeNode\<close>), so \<open>split\<close> and the growing step of
  \<open>growChildAndRemove\<close> leave such a pool too. \<open>NewFreeList\<close> creates one.
\<close>

theorem freelist_blank_bounded:
  assumes "pool_ok f"
  shows "blank (fst (newNode f)) \<and> pool_ok (snd (newNode f)) \<and> cap (snd (newNode f)) = cap f
         \<and> freeNode f n = (if length (freelist f) < cap f then f\<lparr>freelist := freelist f @ [n]\<rparr>
                            else f)
         \<and> cap (freeNode f n) = cap f \<and> length (freelist (freeNode f n)) \<le> cap f
         \<and> (blank n \<longrightarrow> pool_ok (freeNode f n))
         \<and> pool_ok (t_freeNode f n)
         \<and> (\<forall>i item a b f'. split_node n i f = Inr (item, a, b, f')
                \<longrightarrow> pool_ok f' \<and> cap f' = cap f)
         \<and> (\<forall>i m n' f'. growChild n i m f = Inr (n', f') \<longrightarrow> pool_ok f' \<and> cap f' = cap f)
         \<and> (\<forall>sz f0. NewFreeList sz = Inr (f0 :: 'a FreeList)
                \<longrightarrow> pool_ok f0 \<and> freelist f0 = [] \<and> cap f0 = nat sz)"
proof -
  have 1: "blank (fst (newNode f)) \<and> pool_ok (snd (newNode f)) \<and> cap (snd (newNode f)) = cap f"
    using newNode_pool [OF assms] by simp
  have 2: "freeNode f n = (if length (freelist f) < cap f then f\<lparr>freelist := freelist f @ [n]\<rparr>
                            else f)"
    by (simp add: freeNode_def)
  have 3: "cap (freeNode f n) = cap f \<and> length (freelist (freeNode f n)) \<le> cap f"
    using freeNode_length [OF assms] by (simp add: freeNode_cap)
  have 4: "blank n \<longrightarrow> pool_ok (freeNode f n)"
    using freeNode_pool [OF assms] by simp
  have 5: "pool_ok (t_freeNode f n)"
    using assms by (rule t_freeNode_pool)
  have 6: "\<forall>i item a b f'. split_node n i f = Inr (item, a, b, f')
                \<longrightarrow> pool_ok f' \<and> cap f' = cap f"
    using split_node_pool 1 by blast
  have 7: "\<forall>i m n' f'. growChild n i m f = Inr (n', f') \<longrightarrow> pool_ok f' \<and> cap f' = cap f"
    using growChild_pool_ok assms by blast
  have 8: "\<forall>sz f0. NewFreeList sz = Inr (f0 :: 'a FreeList)
                \<longrightarrow> pool_ok f0 \<and> freelist f0 = [] \<and> cap f0 = nat sz"
    by (auto simp: NewFreeList_def pool_ok_def split: if_splits)
  show ?thesis
    using 1 2 3 4 5 6 7 8 by blast
qed

theorem freelist_blank_bounded_witness:
  "pool_ok \<lparr>freelist = [Node [] []] :: int node list, cap = 1\<rparr>
   \<and> blank (fst (newNode \<lparr>freelist = [Node [] []] :: int node list, cap = 1\<rparr>))
   \<and> freeNode \<lparr>freelist = [Node [] []], cap = 1\<rparr> (Node [Some (7 :: int)] [])
       = \<lparr>freelist = [Node [] []], cap = 1\<rparr>
   \<and> pool_ok (t_freeNode \<lparr>freelist = [Node [] []], cap = 1\<rparr> (Node [Some (7 :: int)] []))"
proof -
  have p: "pool_ok \<lparr>freelist = [Node [] []] :: int node list, cap = 1\<rparr>"
    by (simp add: pool_ok_def blank_def)
  show ?thesis
    using freelist_blank_bounded [OF p, of "Node [Some 7] []"] p
    by (auto simp: freeNode_def)
qed

subsection \<open>Removing the smallest or the largest item\<close>

lemma remove_switch_minmax:
  assumes "typ = removeMin \<or> typ = removeMax"
  shows "remove_switch Less ctx n item typ = remove_switch Less' ctx' n item' typ"
    and "remove_switch Less ctx n item typ = Inr (Inr (i, found)) \<Longrightarrow> \<not> found"
    and "remove_switch Less ctx n item typ = Inl e \<Longrightarrow> e = IndexOutOfRange"
  using assms
  by (auto simp: remove_switch_def removeMin_def removeMax_def removeItem_def pop_def
      removeAt_def split: if_splits sum.splits)

lemma growChild_error: "growChild n i m fl = Inl e \<Longrightarrow> e = IndexOutOfRange"
  by (auto simp: growChild_def Let_def pop_def removeAt_def insertAt_def
      split: if_splits sum.splits prod.splits)

lemma remove_node_Suc_minmax:
  assumes "typ = removeMin \<or> typ = removeMax"
  shows "remove_node (Suc k) Less ctx n item m typ fl =
     (case remove_switch Less ctx n item typ of
        Inl e \<Rightarrow> Some (Inl e)
      | Inr (Inl (out, n')) \<Rightarrow> Some (Inr (out, n', fl))
      | Inr (Inr (i, found)) \<Rightarrow>
          if i < length (children n) then
            (if length (items (children n ! i)) \<le> m then
               growChildAndRemove k Less ctx n i item m typ fl
             else
               (case remove_node k Less ctx (children n ! i) item m typ fl of
                  None \<Rightarrow> None
                | Some (Inl e) \<Rightarrow> Some (Inl e)
                | Some (Inr (out, child', fl')) \<Rightarrow>
                    Some (Inr (out, Node (items n) ((children n)[i := child']), fl'))))
          else Some (Inl IndexOutOfRange))"
proof (cases "remove_switch Less ctx n item typ")
  case (Inl e)
  then show ?thesis by (simp add: remove_node.simps(2))
next
  case (Inr r)
  show ?thesis
  proof (cases r)
    case (Inl a)
    then show ?thesis using Inr by (simp add: remove_node.simps(2) split: prod.splits)
  next
    case r: (Inr b)
    obtain i found where b: "b = (i, found)" by (cases b)
    have "\<not> found"
      using remove_switch_minmax(2) [OF assms, of Less ctx n item i found] Inr r b by simp
    then show ?thesis using Inr r b by (simp add: remove_node.simps(2) Let_def)
  qed
qed

lemma remove_minmax_indep:
  assumes "typ = removeMin \<or> typ = removeMax"
  shows "remove_node k Less ctx n item m typ fl = remove_node k Less' ctx' n item' m typ fl
         \<and> growChildAndRemove k Less ctx n i item m typ fl
             = growChildAndRemove k Less' ctx' n i item' m typ fl"
proof (induction k arbitrary: n i fl)
  case 0
  show ?case by simp
next
  case (Suc k)
  have sw: "remove_switch Less ctx n item typ = remove_switch Less' ctx' n item' typ"
    using assms by (rule remove_switch_minmax(1))
  have "remove_node (Suc k) Less ctx n item m typ fl
        = remove_node (Suc k) Less' ctx' n item' m typ fl"
    by (simp only: remove_node_Suc_minmax [OF assms] sw Suc)
  moreover have "growChildAndRemove (Suc k) Less ctx n i item m typ fl
             = growChildAndRemove (Suc k) Less' ctx' n i item' m typ fl"
    by (simp add: Suc growChildAndRemove.simps(2) split: sum.splits prod.splits)
  ultimately show ?case by simp
qed

lemma remove_minmax_error:
  assumes "typ = removeMin \<or> typ = removeMax"
  shows "(remove_node k Less ctx n item m typ fl = Some (Inl e) \<longrightarrow> e = IndexOutOfRange)
         \<and> (growChildAndRemove k Less ctx n i item m typ fl = Some (Inl e) \<longrightarrow> e = IndexOutOfRange)"
proof (induction k arbitrary: n i fl)
  case 0
  show ?case by simp
next
  case (Suc k)
  have er: "\<And>e. remove_switch Less ctx n item typ = Inl e \<Longrightarrow> e = IndexOutOfRange"
    using assms by (rule remove_switch_minmax(3))
  have "remove_node (Suc k) Less ctx n item m typ fl = Some (Inl e) \<longrightarrow> e = IndexOutOfRange"
    using Suc er
    by (auto simp: remove_node_Suc_minmax [OF assms] split: sum.splits if_splits option.splits)
  moreover have "growChildAndRemove (Suc k) Less ctx n i item m typ fl = Some (Inl e)
                 \<longrightarrow> e = IndexOutOfRange"
    using Suc growChild_error by (auto simp: growChildAndRemove.simps(2) split: sum.splits)
  ultimately show ?case by simp
qed

text \<open>
  C10. In the modes \<open>removeMin\<close> and \<open>removeMax\<close> the result of \<open>remove\<close> is the same for
  every item argument, every comparison function and every context, nil included; and the
  call with the nil item never ends in a nil dereference (an index out of range is the only
  panic of these modes).
\<close>

theorem remove_minmax_item_unused:
  assumes "typ = removeMin \<or> typ = removeMax"
  shows "remove_node k Less ctx n item m typ fl = remove_node k Less' ctx' n None m typ fl
         \<and> remove_node k Less ctx n None m typ fl \<noteq> Some (Inl NilDereference)"
proof -
  have "remove_node k Less ctx n item m typ fl = remove_node k Less' ctx' n None m typ fl"
    using remove_minmax_indep [OF assms, of k Less ctx n item m fl Less' ctx' None] by simp
  moreover have "remove_node k Less ctx n None m typ fl \<noteq> Some (Inl NilDereference)"
    using remove_minmax_error [OF assms, of k Less ctx n None m fl NilDereference] by auto
  ultimately show ?thesis by simp
qed

theorem remove_minmax_item_unused_witness:
  "remove_node 2 int_Less ()
      (Node [Some 5] [Node [Some 1, Some 2] [], Node [Some 7, Some 8] []]) (Some 9) 1 removeMax
      \<lparr>freelist = [], cap = 0\<rparr>
     = remove_node 2 (\<lambda>x b c. True) True
      (Node [Some 5] [Node [Some 1, Some 2] [], Node [Some 7, Some 8] []]) None 1 removeMax
      \<lparr>freelist = [], cap = 0\<rparr>
   \<and> remove_node 2 int_Less ()
      (Node [Some 5] [Node [Some 1, Some 2] [], Node [Some 7, Some 8] []]) None 1 removeMax
      \<lparr>freelist = [], cap = 0\<rparr>
     = Some (Inr (Some 8, Node [Some 5] [Node [Some 1, Some 2] [], Node [Some 7] []],
                  \<lparr>freelist = [], cap = 0\<rparr>))"
proof -
  have "remove_node 2 int_Less ()
      (Node [Some 5] [Node [Some 1, Some 2] [], Node [Some 7, Some 8] []]) None 1 removeMax
      \<lparr>freelist = [], cap = 0\<rparr>
     = Some (Inr (Some 8, Node [Some 5] [Node [Some 1, Some 2] [], Node [Some 7] []],
                  \<lparr>freelist = [], cap = 0\<rparr>))"
    by code_simp
  then show ?thesis
    using remove_minmax_item_unused [of removeMax 2 int_Less "()"
        "Node [Some 5] [Node [Some 1, Some 2] [], Node [Some 7, Some 8] []]" "Some 9" 1
        "\<lparr>freelist = [], cap = 0\<rparr>" "\<lambda>x b c. True" True]
    by simp
qed

subsection \<open>Arity and balance\<close>

lemma shape_arity: "shape h n \<Longrightarrow> arity n"
proof (induction h arbitrary: n)
  case 0
  then show ?case by (cases n) simp
next
  case (Suc h)
  then show ?case by (cases n) auto
qed

lemma arityD:
  assumes "arity n"
  shows "length (children n) = 0 \<or> length (children n) = length (items n) + 1"
    and "\<And>c. c \<in> set (children n) \<Longrightarrow> arity c"
  using assms by (cases n, simp)+

lemma arityI:
  assumes "length (children n) = 0 \<or> length (children n) = length (items n) + 1"
    and "\<And>c. c \<in> set (children n) \<Longrightarrow> arity c"
  shows "arity n"
  using assms by (cases n) simp

lemma shape_Suc: "shape (Suc h) n = (length (children n) = length (items n) + 1
                       \<and> (\<forall>c \<in> set (children n). shape h c))"
  by (cases n) simp

lemma shape_0: "shape 0 n = (children n = [])"
  by (cases n) simp

lemma arity_split_node:
  assumes "arity n" and "pool_ok fl" and "split_node n i fl = Inr (item, a, b, fl')"
  shows "arity a \<and> arity b \<and> pool_ok fl'"
proof -
  have i: "i < length (items n)"
    using assms(3) by (auto simp: split_node_def split: if_splits)
  have ar: "children n = [] \<or> i < length (children n)"
    using arityD(1) [OF assms(1)] i by auto
  have eq: "a = Node (take i (items n)) (take (i + 1) (children n))"
           "b = Node (drop (i + 1) (items n)) (drop (i + 1) (children n))"
           "fl' = snd (newNode fl)"
    using split_node_blank [OF assms(2) i ar] assms(3) by auto
  have "arity a"
    using arityD [OF assms(1)] i by (auto simp: eq min_def dest: in_set_takeD)
  moreover have "arity b"
    using arityD [OF assms(1)] i by (auto simp: eq dest: in_set_dropD)
  ultimately show ?thesis
    using newNode_pool [OF assms(2)] eq by simp
qed

lemma arity_maybeSplitChild:
  assumes "arity n" and "pool_ok fl" and "maybeSplitChild n i mx fl = Inr (sp, n', fl')"
  shows "arity n' \<and> pool_ok fl'"
proof (cases sp)
  case False
  then have "n' = n" "fl' = fl"
    using assms(3) by (auto simp: maybeSplitChild_def split: if_splits sum.splits)
  then show ?thesis using assms by simp
next
  case True
  have i: "i < length (children n)"
    using assms(3) by (auto simp: maybeSplitChild_def split: if_splits)
  obtain item first second where
    sp: "split_node (children n ! i) (mx div 2) fl = Inr (item, first, second, fl')"
    and il: "i \<le> length (items n)"
    and n': "n' = Node (take i (items n) @ item # drop i (items n))
                      (take (i + 1) ((children n)[i := first]) @ second
                          # drop (i + 1) ((children n)[i := first]))"
    using assms(3) True i
    by (auto simp: maybeSplitChild_def insertAt_def split: if_splits sum.splits)
  have ci: "arity (children n ! i)"
    using arityD(2) [OF assms(1)] i by simp
  have ab: "arity first" "arity second" "pool_ok fl'"
    using arity_split_node [OF ci assms(2) sp] by auto
  have all: "\<forall>c \<in> set ((children n)[i := first]). arity c"
    using arityD(2) [OF assms(1)] ab(1) set_update_subset_insert [of "children n" i first]
    by auto
  have "\<forall>c \<in> set (children n'). arity c"
    using all ab(2) arityD(2) [OF assms(1)]
    by (auto simp: n' dest: in_set_takeD in_set_dropD)
  moreover have "length (children n') = length (items n') + 1"
    using arityD(1) [OF assms(1)] i il by (auto simp: n')
  ultimately show ?thesis
    using ab(3) by (simp add: arityI)
qed

lemma insert_node_cases:
  assumes "insert_node Less ctx n item mx fl = Inr (out, n', fl')"
  obtains
    (found) i where "find_item Less ctx (items n) item = Inr (i, True)" "i < length (items n)"
      "out = items n ! i" "n' = Node ((items n)[i := item]) (children n)" "fl' = fl"
  | (leaf) i where "find_item Less ctx (items n) item = Inr (i, False)" "children n = []"
      "i \<le> length (items n)" "out = None"
      "n' = Node (take i (items n) @ item # drop i (items n)) []" "fl' = fl"
  | (replace) i n1 where "find_item Less ctx (items n) item = Inr (i, False)" "children n \<noteq> []"
      "maybeSplitChild n i mx fl = Inr (True, n1, fl')"
      "insert_switch Less ctx n1 i item = Inr (Inl (out, n'))"
  | (descend) i sp n1 fl1 j c where "find_item Less ctx (items n) item = Inr (i, False)"
      "children n \<noteq> []" "maybeSplitChild n i mx fl = Inr (sp, n1, fl1)"
      "(if sp then insert_switch Less ctx n1 i item else Inr (Inr i)) = Inr (Inr j)"
      "j < length (children n1)"
      "insert_node Less ctx (children n1 ! j) item mx fl1 = Inr (out, c, fl')"
      "n' = Node (items n1) ((children n1)[j := c])"
proof -
  obtain i fnd where f: "find_item Less ctx (items n) item = Inr (i, fnd)"
    using assms by (subst (asm) insert_node.simps) (auto split: sum.splits)
  show thesis
  proof (cases fnd)
    case True
    then show ?thesis
      using assms f found
      by (subst (asm) insert_node.simps) (auto split: if_splits)
  next
    case nf: False
    show ?thesis
    proof (cases "children n = []")
      case True
      then show ?thesis
        using assms f nf leaf [of i]
        by (subst (asm) insert_node.simps) (auto simp: insertAt_def split: if_splits)
    next
      case ne: False
      obtain sp n1 fl1 where ms: "maybeSplitChild n i mx fl = Inr (sp, n1, fl1)"
        using assms f nf ne
        by (subst (asm) insert_node.simps) (auto split: sum.splits)
      obtain sw where sw: "(if sp then insert_switch Less ctx n1 i item else Inr (Inr i)) = Inr sw"
        using assms f nf ne ms
        by (subst (asm) insert_node.simps) (auto split: sum.splits if_splits)
      show ?thesis
      proof (cases sw)
        case (Inl r)
        then show ?thesis
          using assms f nf ne ms sw replace [of i n1]
          by (subst (asm) insert_node.simps) (auto split: sum.splits if_splits prod.splits)
      next
        case (Inr j)
        then show ?thesis
          using assms f nf ne ms sw descend [of i sp n1 fl1 j]
          by (subst (asm) insert_node.simps) (auto split: sum.splits if_splits)
      qed
    qed
  qed
qed

lemma insert_node_induct:
  assumes step: "\<And>n fl.
     (\<And>i sp n1 fl1 j. find_item Less ctx (items n) item = Inr (i, False) \<Longrightarrow>
        children n \<noteq> [] \<Longrightarrow> maybeSplitChild n i mx fl = Inr (sp, n1, fl1) \<Longrightarrow>
        (if sp then insert_switch Less ctx n1 i item else Inr (Inr i)) = Inr (Inr j) \<Longrightarrow>
        j < length (children n1) \<Longrightarrow> P (children n1 ! j) fl1) \<Longrightarrow> P n fl"
  shows "P n fl"
proof -
  have "L = Less \<Longrightarrow> c = ctx \<Longrightarrow> it = item \<Longrightarrow> m = mx \<Longrightarrow> P n fl" for L c it m
  proof (induction L c n it m fl rule: insert_node.induct)
    case (1 L c n it m fl)
    show ?case
    proof (rule step)
      fix i sp n1 fl1 j
      assume a: "find_item Less ctx (items n) item = Inr (i, False)" "children n \<noteq> []"
        "maybeSplitChild n i mx fl = Inr (sp, n1, fl1)"
        "(if sp then insert_switch Less ctx n1 i item else Inr (Inr i)) = Inr (Inr j)"
        "j < length (children n1)"
      show "P (children n1 ! j) fl1"
        by (rule "1.IH" [of "(i, False)" i False "(sp, n1, fl1)" sp "(n1, fl1)" n1 fl1 "Inr j" j])
           (use a "1.prems" in auto)
    qed
  qed
  then show ?thesis by simp
qed

lemma arity_insert_switch:
  assumes "arity n" and "insert_switch Less ctx n i item = Inr (Inl (out, n'))"
  shows "arity n'"
proof -
  have "n' = Node ((items n)[i := item]) (children n)"
    using assms(2) by (auto simp: insert_switch_def Let_def split: if_splits option.splits)
  then show ?thesis using arityD [OF assms(1)] by (auto intro: arityI)
qed

lemma arity_insert_node:
  assumes "insert_node Less ctx n item mx fl = Inr (out, n', fl')" and "arity n" and "pool_ok fl"
  shows "arity n' \<and> pool_ok fl'"
  using assms
proof (induction n fl arbitrary: out n' fl' rule: insert_node_induct [of Less ctx item mx])
  case (1 n fl)
  from "1.prems"(1) show ?case
  proof (cases rule: insert_node_cases)
    case (found i)
    then show ?thesis using arityD [OF "1.prems"(2)] "1.prems"(3) by (auto intro: arityI)
  next
    case (leaf i)
    then show ?thesis using "1.prems"(3) by simp
  next
    case (replace i n1)
    have "arity n1 \<and> pool_ok fl'"
      using arity_maybeSplitChild [OF "1.prems"(2,3) replace(3)] .
    then show ?thesis using arity_insert_switch [OF _ replace(4)] by simp
  next
    case (descend i sp n1 fl1 j c)
    have n1: "arity n1 \<and> pool_ok fl1"
      using arity_maybeSplitChild [OF "1.prems"(2,3) descend(3)] .
    then have "arity (children n1 ! j)"
      using arityD(2) [of n1] descend(5) by simp
    then have c: "arity c \<and> pool_ok fl'"
      using "1.IH" [OF descend(1,2,3,4,5) descend(6)] n1 by simp
    have "\<forall>d \<in> set ((children n1)[j := c]). arity d"
      using arityD(2) [of n1] n1 c set_update_subset_insert [of "children n1" j c] by auto
    then show ?thesis
      using arityD(1) [of n1] n1 c descend(7) by (auto intro: arityI)
  qed
qed

subsection \<open>The growing step\<close>

lemma growChild_eq:
  assumes "i < length (children n)" and "length (children n) = length (items n) + 1"
  shows "growChild n i m fl =
     (if 0 < i \<and> m < length (items (children n ! (i - 1))) then Inr (stealLeft n i, fl)
      else if i < length (items n) \<and> m < length (items (children n ! (i + 1)))
        then Inr (stealRight n i, fl)
      else if items n = [] then Inl IndexOutOfRange
      else (let j = (if length (items n) \<le> i then i - 1 else i)
            in Inr (mergeAt n j, t_freeNode fl (children n ! (j + 1)))))"
proof -
  consider (left) "0 < i \<and> m < length (items (children n ! (i - 1)))"
    | (right) "\<not> (0 < i \<and> m < length (items (children n ! (i - 1))))"
        "i < length (items n) \<and> m < length (items (children n ! (i + 1)))"
    | (merge) "\<not> (0 < i \<and> m < length (items (children n ! (i - 1))))"
        "\<not> (i < length (items n) \<and> m < length (items (children n ! (i + 1))))"
    by blast
  then show ?thesis
  proof cases
    case left
    then show ?thesis
      using assms
      by (auto simp: growChild_def stealLeft_def Let_def pop_def insertAt_def)
  next
    case right
    then show ?thesis
      using assms
      by (auto simp: growChild_def stealRight_def Let_def removeAt_def hd_conv_nth drop_Suc)
  next
    case merge
    then show ?thesis
      using assms
      by (auto simp: growChild_def mergeAt_def Let_def removeAt_def)
  qed
qed

lemma growChild_left:
  assumes "i < length (children n)" and "length (children n) = length (items n) + 1"
    and "0 < i" and "m < length (items (children n ! (i - 1)))"
  shows "growChild n i m fl = Inr (stealLeft n i, fl)"
  unfolding growChild_eq [OF assms(1,2)] using assms(3,4) by auto

lemma growChild_right:
  assumes "i < length (children n)" and "length (children n) = length (items n) + 1"
    and "\<not> (0 < i \<and> m < length (items (children n ! (i - 1))))"
    and "i < length (items n)" and "m < length (items (children n ! (i + 1)))"
  shows "growChild n i m fl = Inr (stealRight n i, fl)"
  unfolding growChild_eq [OF assms(1,2)] using assms(3,4,5) by auto

lemma growChild_merge:
  assumes "i < length (children n)" and "length (children n) = length (items n) + 1"
    and "\<not> (0 < i \<and> m < length (items (children n ! (i - 1))))"
    and "\<not> (i < length (items n) \<and> m < length (items (children n ! (i + 1))))"
    and "items n \<noteq> []" and "j = (if length (items n) \<le> i then i - 1 else i)"
  shows "growChild n i m fl = Inr (mergeAt n j, t_freeNode fl (children n ! (j + 1)))"
  unfolding growChild_eq [OF assms(1,2)] using assms(3,4,5,6) by (auto simp: Let_def)

lemma growChild_empty:
  assumes "i < length (children n)" and "length (children n) = length (items n) + 1"
    and "items n = []"
  shows "growChild n i m fl = Inl IndexOutOfRange"
  unfolding growChild_eq [OF assms(1,2)] using assms by auto

lemma stealLeft_append:
  assumes "length cs1 = length s1"
  shows "stealLeft (Node (s1 @ x # s2) (cs1 @ l # c # cs2)) (Suc (length s1)) =
     Node (s1 @ last (items l) # s2)
          (cs1 @ Node (butlast (items l)) (butlast (children l))
               # Node (x # items c) ((if children l = [] then [] else [last (children l)]) @ children c)
               # cs2)"
  using assms by (simp add: stealLeft_def Let_def nth_append list_update_append)

lemma stealRight_append:
  assumes "length cs1 = length s1"
  shows "stealRight (Node (s1 @ x # s2) (cs1 @ c # r # cs2)) (length s1) =
     Node (s1 @ hd (items r) # s2)
          (cs1 @ Node (items c @ [x]) (children c @ (if children r = [] then [] else [hd (children r)]))
               # Node (tl (items r)) (tl (children r))
               # cs2)"
  using assms by (simp add: stealRight_def Let_def nth_append list_update_append)

lemma mergeAt_append:
  assumes "length cs1 = length s1"
  shows "mergeAt (Node (s1 @ x # s2) (cs1 @ c # d # cs2)) (length s1) =
     Node (s1 @ s2) (cs1 @ Node (items c @ [x] @ items d) (children c @ children d) # cs2)"
  using assms by (simp add: mergeAt_def Let_def nth_append list_update_append)

lemma node_at:
  assumes "j < length (items n)" and "length (children n) = length (items n) + 1"
  obtains s1 s2 cs1 cs2 where
    "n = Node (s1 @ items n ! j # s2) (cs1 @ children n ! j # children n ! (j + 1) # cs2)"
    "length s1 = j" "length cs1 = j"
proof -
  have 1: "items n = take j (items n) @ items n ! j # drop (Suc j) (items n)"
    using assms(1) by (simp add: id_take_nth_drop)
  have "children n = take j (children n) @ children n ! j # drop (Suc j) (children n)"
    using assms by (simp add: id_take_nth_drop)
  moreover have "drop (Suc j) (children n) = children n ! (j + 1) # drop (Suc (Suc j)) (children n)"
    using assms by (simp add: Cons_nth_drop_Suc)
  ultimately have 2: "children n = take j (children n) @ children n ! j # children n ! (j + 1)
                         # drop (Suc (Suc j)) (children n)"
    by simp
  have "n = Node (take j (items n) @ items n ! j # drop (Suc j) (items n))
               (take j (children n) @ children n ! j # children n ! (j + 1)
                         # drop (Suc (Suc j)) (children n))"
    using 1 2 by (cases n) simp
  then show thesis
    using that [of "take j (items n)" "drop (Suc j) (items n)" "take j (children n)"
                   "drop (Suc (Suc j)) (children n)"] assms by simp
qed

lemma shape_butlast:
  assumes "shape h l" and "items l \<noteq> []"
  shows "shape h (Node (butlast (items l)) (butlast (children l)))"
proof (cases h)
  case 0
  then show ?thesis using assms by (simp add: shape_0)
next
  case (Suc k)
  then show ?thesis using assms by (auto simp: shape_Suc dest: in_set_butlastD)
qed

lemma in_set_tl: "x \<in> set (tl xs) \<Longrightarrow> x \<in> set xs"
  by (cases xs) auto

lemma shape_tl:
  assumes "shape h r" and "items r \<noteq> []"
  shows "shape h (Node (tl (items r)) (tl (children r)))"
proof (cases h)
  case 0
  then show ?thesis using assms by (simp add: shape_0)
next
  case (Suc k)
  then show ?thesis using assms by (auto simp: shape_Suc dest: in_set_tl)
qed

lemma shape_push_front:
  assumes "shape h l" and "shape h c"
  shows "shape h (Node (x # items c) ((if children l = [] then [] else [last (children l)]) @ children c))"
proof (cases h)
  case 0
  then show ?thesis using assms by (simp add: shape_0)
next
  case (Suc k)
  then show ?thesis using assms by (auto simp: shape_Suc)
qed

lemma shape_push_back:
  assumes "shape h r" and "shape h c"
  shows "shape h (Node (items c @ [x]) (children c @ (if children r = [] then [] else [hd (children r)])))"
proof (cases h)
  case 0
  then show ?thesis using assms by (simp add: shape_0)
next
  case (Suc k)
  then show ?thesis using assms by (auto simp: shape_Suc)
qed

lemma shape_merged:
  assumes "shape h c" and "shape h d"
  shows "shape h (Node (items c @ [x] @ items d) (children c @ children d))"
proof (cases h)
  case 0
  then show ?thesis using assms by (simp add: shape_0)
next
  case (Suc k)
  then show ?thesis using assms by (auto simp: shape_Suc)
qed

lemma shape_stealLeft:
  assumes "shape (Suc h) n" and "0 < i" and "i < length (children n)"
    and "items (children n ! (i - 1)) \<noteq> []"
  shows "shape (Suc h) (stealLeft n i)"
proof -
  have len: "length (children n) = length (items n) + 1"
    using assms(1) by (simp add: shape_Suc)
  have j: "i - 1 < length (items n)" using assms(2,3) len by simp
  obtain s1 s2 cs1 cs2 where
    n: "n = Node (s1 @ items n ! (i - 1) # s2)
                 (cs1 @ children n ! (i - 1) # children n ! (i - 1 + 1) # cs2)"
    and l: "length s1 = i - 1" "length cs1 = i - 1"
    using node_at [OF j len] by blast
  define l where "l = children n ! (i - 1)"
  define c where "c = children n ! i"
  have n': "n = Node (s1 @ items n ! (i - 1) # s2) (cs1 @ l # c # cs2)"
    using n assms(2) by (simp add: l_def c_def)
  have i: "i = Suc (length s1)" using l assms(2) by simp
  have sh: "shape h l" "shape h c" "\<forall>d \<in> set cs1 \<union> set cs2. shape h d"
           "length cs1 + length cs2 = length s1 + length s2"
    using assms(1) by (subst (asm) n', simp)+
  have "stealLeft n i = Node (s1 @ last (items l) # s2)
          (cs1 @ Node (butlast (items l)) (butlast (children l))
               # Node (items n ! (i - 1) # items c)
                   ((if children l = [] then [] else [last (children l)]) @ children c)
               # cs2)"
    by (subst n', subst i, rule stealLeft_append) (simp add: l)
  moreover have "items l \<noteq> []" using assms(4) by (simp add: l_def)
  ultimately show ?thesis
    using sh shape_butlast [OF sh(1)] shape_push_front [OF sh(1,2)] by simp
qed

lemma shape_stealRight:
  assumes "shape (Suc h) n" and "i < length (items n)"
    and "items (children n ! (i + 1)) \<noteq> []"
  shows "shape (Suc h) (stealRight n i)"
proof -
  have len: "length (children n) = length (items n) + 1"
    using assms(1) by (simp add: shape_Suc)
  obtain s1 s2 cs1 cs2 where
    n: "n = Node (s1 @ items n ! i # s2) (cs1 @ children n ! i # children n ! (i + 1) # cs2)"
    and l: "length s1 = i" "length cs1 = i"
    using node_at [OF assms(2) len] by blast
  define c where "c = children n ! i"
  define r where "r = children n ! (i + 1)"
  have n': "n = Node (s1 @ items n ! i # s2) (cs1 @ c # r # cs2)"
    using n by (simp add: r_def c_def)
  have sh: "shape h c" "shape h r" "\<forall>d \<in> set cs1 \<union> set cs2. shape h d"
           "length cs1 + length cs2 = length s1 + length s2"
    using assms(1) by (subst (asm) n', simp)+
  have "stealRight n i = Node (s1 @ hd (items r) # s2)
          (cs1 @ Node (items c @ [items n ! i])
                   (children c @ (if children r = [] then [] else [hd (children r)]))
               # Node (tl (items r)) (tl (children r))
               # cs2)"
    by (subst n', subst l(1) [symmetric], rule stealRight_append) (simp add: l)
  moreover have "items r \<noteq> []" using assms(3) by (simp add: r_def)
  ultimately show ?thesis
    using sh shape_tl [OF sh(2)] shape_push_back [OF sh(2,1)] by simp
qed

lemma shape_mergeAt:
  assumes "shape (Suc h) n" and "j < length (items n)"
  shows "shape (Suc h) (mergeAt n j)"
proof -
  have len: "length (children n) = length (items n) + 1"
    using assms(1) by (simp add: shape_Suc)
  obtain s1 s2 cs1 cs2 where
    n: "n = Node (s1 @ items n ! j # s2) (cs1 @ children n ! j # children n ! (j + 1) # cs2)"
    and l: "length s1 = j" "length cs1 = j"
    using node_at [OF assms(2) len] by blast
  define c where "c = children n ! j"
  define d where "d = children n ! (j + 1)"
  have n': "n = Node (s1 @ items n ! j # s2) (cs1 @ c # d # cs2)"
    using n by (simp add: d_def c_def)
  have sh: "shape h c" "shape h d" "\<forall>e \<in> set cs1 \<union> set cs2. shape h e"
           "length cs1 + length cs2 = length s1 + length s2"
    using assms(1) by (subst (asm) n', simp)+
  have "mergeAt n j = Node (s1 @ s2)
          (cs1 @ Node (items c @ [items n ! j] @ items d) (children c @ children d) # cs2)"
    by (subst n', subst l(1) [symmetric], rule mergeAt_append) (simp add: l)
  then show ?thesis
    using sh shape_merged [OF sh(1,2)] by simp
qed

lemma growChild_shape:
  assumes "shape (Suc h) n" and "growChild n i m fl = Inr (n', fl')"
  shows "shape (Suc h) n'"
proof -
  have len: "length (children n) = length (items n) + 1"
    using assms(1) by (simp add: shape_Suc)
  have i: "i < length (children n)"
    using assms(2) by (auto simp: growChild_def split: if_splits)
  consider (left) "0 < i \<and> m < length (items (children n ! (i - 1)))"
    | (right) "\<not> (0 < i \<and> m < length (items (children n ! (i - 1))))"
        "i < length (items n) \<and> m < length (items (children n ! (i + 1)))"
    | (merge) "\<not> (0 < i \<and> m < length (items (children n ! (i - 1))))"
        "\<not> (i < length (items n) \<and> m < length (items (children n ! (i + 1))))"
    by blast
  then show ?thesis
  proof cases
    case left
    then have "n' = stealLeft n i"
      using growChild_left [OF i len, of m fl] assms(2) by simp
    moreover have "items (children n ! (i - 1)) \<noteq> []" using left by auto
    ultimately show ?thesis using shape_stealLeft [OF assms(1) _ i] left by simp
  next
    case right
    then have "n' = stealRight n i"
      using growChild_right [OF i len right(1), of fl] assms(2) by simp
    moreover have "items (children n ! (i + 1)) \<noteq> []" using right by auto
    ultimately show ?thesis using shape_stealRight [OF assms(1)] right by simp
  next
    case merge
    have ne: "items n \<noteq> []"
      using growChild_empty [OF i len, of m fl] assms(2) by auto
    define j where "j = (if length (items n) \<le> i then i - 1 else i)"
    have "n' = mergeAt n j"
      using growChild_merge [OF i len merge ne j_def, of fl] assms(2) by simp
    moreover have "j < length (items n)" using i len ne by (cases "items n") (auto simp: j_def)
    ultimately show ?thesis using shape_mergeAt [OF assms(1)] by simp
  qed
qed

subsection \<open>Removal keeps the shape\<close>

lemma remove_switch_leaf:
  assumes "remove_switch Less ctx n item typ = Inr (Inl (out, n'))"
  shows "children n = []" and "children n' = []"
  using assms
  by (auto simp: remove_switch_def pop_def removeAt_def split: if_splits sum.splits prod.splits)

lemma remove_switch_internal:
  assumes "remove_switch Less ctx n item typ = Inr (Inr (i, found))"
  shows "children n \<noteq> []" and "i \<le> length (items n)" and "found \<Longrightarrow> i < length (items n)"
  using assms find_item_bounds [of Less ctx "items n" item]
  by (auto simp: remove_switch_def split: if_splits sum.splits prod.splits)

lemma remove_node_cases:
  assumes "remove_node (Suc k) Less ctx n item m typ fl = Some (Inr (out, n', fl'))"
  obtains
    (leaf) "remove_switch Less ctx n item typ = Inr (Inl (out, n'))" "fl' = fl"
  | (grow) i found where "remove_switch Less ctx n item typ = Inr (Inr (i, found))"
      "i < length (children n)" "length (items (children n ! i)) \<le> m"
      "growChildAndRemove k Less ctx n i item m typ fl = Some (Inr (out, n', fl'))"
  | (pred) i p c where "remove_switch Less ctx n item typ = Inr (Inr (i, True))"
      "i < length (children n)" "m < length (items (children n ! i))" "i < length (items n)"
      "remove_node k Less ctx (children n ! i) None m removeMax fl = Some (Inr (p, c, fl'))"
      "out = items n ! i" "n' = Node ((items n)[i := p]) ((children n)[i := c])"
  | (descend) i c where "remove_switch Less ctx n item typ = Inr (Inr (i, False))"
      "i < length (children n)" "m < length (items (children n ! i))"
      "remove_node k Less ctx (children n ! i) item m typ fl = Some (Inr (out, c, fl'))"
      "n' = Node (items n) ((children n)[i := c])"
proof -
  obtain r where r: "remove_switch Less ctx n item typ = Inr r"
    using assms by (auto simp: remove_node.simps(2) split: sum.splits)
  show thesis
  proof (cases r)
    case (Inl a)
    then show ?thesis
      using assms r leaf by (auto simp: remove_node.simps(2) split: prod.splits)
  next
    case (Inr b)
    obtain i found where b: "b = (i, found)" by (cases b)
    have i: "i < length (children n)"
      using assms r Inr b by (auto simp: remove_node.simps(2) split: if_splits)
    show ?thesis
    proof (cases "length (items (children n ! i)) \<le> m")
      case True
      then show ?thesis
        using assms r Inr b i grow [of i found] by (simp add: remove_node.simps(2))
    next
      case False
      show ?thesis
      proof (cases found)
        case True
        then show ?thesis
          using assms r Inr b i False pred [of i]
          by (auto simp: remove_node.simps(2) split: if_splits option.splits sum.splits)
      next
        case nf: False
        then show ?thesis
          using assms r Inr b i False descend [of i]
          by (auto simp: remove_node.simps(2) split: if_splits option.splits sum.splits)
      qed
    qed
  qed
qed

lemma growChildAndRemove_cases:
  assumes "growChildAndRemove (Suc k) Less ctx n i item m typ fl = Some (Inr r)"
  obtains n1 fl1 where "growChild n i m fl = Inr (n1, fl1)"
    "remove_node k Less ctx n1 item m typ fl1 = Some (Inr r)"
  using assms by (auto simp: growChildAndRemove.simps(2) split: sum.splits)

lemma shape_update:
  assumes "shape (Suc h) n" and "shape h c"
  shows "shape (Suc h) (Node (items n) ((children n)[i := c]))"
    and "shape (Suc h) (Node ((items n)[i := p]) ((children n)[i := c]))"
  using assms set_update_subset_insert [of "children n" i c]
  by (auto simp: shape_Suc)

lemma shape_height:
  assumes "shape h n"
  shows "(children n = []) = (h = 0)"
  using assms by (cases h) (auto simp: shape_0 shape_Suc)

lemma remove_node_shape:
  "(shape h n \<longrightarrow> remove_node k Less ctx n item m ty fl = Some (Inr (out, n', fl'))
      \<longrightarrow> shape h n')
   \<and> (shape h n \<longrightarrow> growChildAndRemove k Less ctx n i item m ty fl = Some (Inr (out, n', fl'))
      \<longrightarrow> shape h n')"
proof (induction k arbitrary: h n item ty fl out n' fl' i)
  case 0
  show ?case by simp
next
  case (Suc k)
  have 1: "shape h n'"
    if sh: "shape h n"
      and r: "remove_node (Suc k) Less ctx n item m ty fl = Some (Inr (out, n', fl'))"
  using r
  proof (cases rule: remove_node_cases)
    case leaf
    then show ?thesis
      using remove_switch_leaf [OF leaf(1)] shape_height [OF sh] by (simp add: shape_0)
  next
    case (grow i found)
    then show ?thesis using Suc sh by blast
  next
    case (pred i p c)
    obtain h' where h: "h = Suc h'"
      using shape_height [OF sh] pred(2) by (cases h) auto
    have "shape h' (children n ! i)"
      using sh pred(2) by (simp add: h shape_Suc)
    then have "shape h' c" using Suc pred(5) by blast
    then show ?thesis using shape_update(2) [of h' n c] sh pred(7) h by simp
  next
    case (descend i c)
    obtain h' where h: "h = Suc h'"
      using shape_height [OF sh] descend(2) by (cases h) auto
    have "shape h' (children n ! i)"
      using sh descend(2) by (simp add: h shape_Suc)
    then have "shape h' c" using Suc descend(4) by blast
    then show ?thesis using shape_update(1) [of h' n c] sh descend(5) h by simp
  qed
  have 2: "shape h n'"
    if sh: "shape h n"
      and r: "growChildAndRemove (Suc k) Less ctx n i item m ty fl = Some (Inr (out, n', fl'))"
  proof -
    obtain n1 fl1 where g: "growChild n i m fl = Inr (n1, fl1)"
      and r1: "remove_node k Less ctx n1 item m ty fl1 = Some (Inr (out, n', fl'))"
      using r by (rule growChildAndRemove_cases)
    have "i < length (children n)"
      using g by (auto simp: growChild_def split: if_splits)
    then obtain h' where h: "h = Suc h'"
      using shape_height [OF sh] by (cases h) auto
    have "shape h n1" using growChild_shape [OF _ g] sh h by simp
    then show ?thesis using Suc r1 by blast
  qed
  show ?case using 1 2 by blast
qed

subsection \<open>Insertion keeps the shape\<close>

lemma shape_split_node:
  assumes "shape h n" and "pool_ok fl" and "split_node n i fl = Inr (item, a, b, fl')"
  shows "shape h a \<and> shape h b"
proof -
  have i: "i < length (items n)"
    using assms(3) by (auto simp: split_node_def split: if_splits)
  have ar: "children n = [] \<or> i < length (children n)"
    using arityD(1) [OF shape_arity [OF assms(1)]] i by auto
  have eq: "a = Node (take i (items n)) (take (i + 1) (children n))"
           "b = Node (drop (i + 1) (items n)) (drop (i + 1) (children n))"
    using split_node_blank [OF assms(2) i ar] assms(3) by auto
  show ?thesis
  proof (cases h)
    case 0
    then show ?thesis using assms(1) by (simp add: eq shape_0)
  next
    case (Suc k)
    then show ?thesis
      using assms(1) i
      by (auto simp: eq shape_Suc min_def dest: in_set_takeD in_set_dropD)
  qed
qed

lemma shape_maybeSplitChild:
  assumes "shape h n" and "pool_ok fl" and "maybeSplitChild n i mx fl = Inr (sp, n', fl')"
  shows "shape h n'"
proof (cases sp)
  case False
  then have "n' = n"
    using assms(3) by (auto simp: maybeSplitChild_def split: if_splits sum.splits)
  then show ?thesis using assms by simp
next
  case True
  have i: "i < length (children n)"
    using assms(3) by (auto simp: maybeSplitChild_def split: if_splits)
  then obtain k where h: "h = Suc k"
    using shape_height [OF assms(1)] by (cases h) auto
  obtain item first second where
    sp: "split_node (children n ! i) (mx div 2) fl = Inr (item, first, second, fl')"
    and il: "i \<le> length (items n)"
    and n': "n' = Node (take i (items n) @ item # drop i (items n))
                      (take (i + 1) ((children n)[i := first]) @ second
                          # drop (i + 1) ((children n)[i := first]))"
    using assms(3) True i
    by (auto simp: maybeSplitChild_def insertAt_def split: if_splits sum.splits)
  have ci: "shape k (children n ! i)"
    using assms(1) i by (simp add: h shape_Suc)
  have ab: "shape k first" "shape k second"
    using shape_split_node [OF ci assms(2) sp] by auto
  have all: "\<forall>c \<in> set ((children n)[i := first]). shape k c"
    using assms(1) ab(1) set_update_subset_insert [of "children n" i first]
    by (auto simp: h shape_Suc)
  have "\<forall>c \<in> set (children n'). shape k c"
    using all ab(2) assms(1)
    by (auto simp: n' h shape_Suc dest: in_set_takeD in_set_dropD)
  moreover have "length (children n') = length (items n') + 1"
    using assms(1) i il by (auto simp: n' h shape_Suc)
  ultimately show ?thesis
    by (simp add: h shape_Suc)
qed

lemma shape_insert_switch:
  assumes "shape h n" and "insert_switch Less ctx n i item = Inr (Inl (out, n'))"
  shows "shape h n'"
proof -
  have "n' = Node ((items n)[i := item]) (children n)"
    using assms(2) by (auto simp: insert_switch_def Let_def split: if_splits option.splits)
  then show ?thesis using assms(1) by (cases h) (auto simp: shape_0 shape_Suc)
qed

lemma shape_insert_node:
  assumes "insert_node Less ctx n item mx fl = Inr (out, n', fl')" and "shape h n" and "pool_ok fl"
  shows "shape h n'"
  using assms
proof (induction n fl arbitrary: h out n' fl' rule: insert_node_induct [of Less ctx item mx])
  case (1 n fl)
  from "1.prems"(1) show ?case
  proof (cases rule: insert_node_cases)
    case (found i)
    then show ?thesis using "1.prems"(2) by (cases h) (auto simp: shape_0 shape_Suc)
  next
    case (leaf i)
    then show ?thesis using shape_height [OF "1.prems"(2)] by (simp add: shape_0)
  next
    case (replace i n1)
    have "shape h n1"
      using shape_maybeSplitChild [OF "1.prems"(2,3) replace(3)] .
    then show ?thesis using shape_insert_switch [OF _ replace(4)] by simp
  next
    case (descend i sp n1 fl1 j c)
    have n1: "shape h n1"
      using shape_maybeSplitChild [OF "1.prems"(2,3) descend(3)] .
    have p1: "pool_ok fl1"
      using arity_maybeSplitChild [OF shape_arity [OF "1.prems"(2)] "1.prems"(3) descend(3)]
      by simp
    obtain k where h: "h = Suc k"
      using shape_height [OF n1] descend(5) by (cases h) auto
    have "shape k (children n1 ! j)"
      using n1 descend(5) by (simp add: h shape_Suc)
    then have c: "shape k c"
      using "1.IH" [OF descend(1,2,3,4,5) descend(6)] p1 by simp
    show ?thesis
      using shape_update(1) [of k n1 c j] n1 c descend(7) h by simp
  qed
qed

text \<open>
  C1. The arity predicate (a leaf has no children, an internal node one child more than
  items, at every node of the subtree) is preserved by \<open>split\<close>, \<open>maybeSplitChild\<close> and
  \<open>insert\<close>; together with height balance, which is what lets siblings be merged or
  lend a child, it is preserved by \<open>remove\<close> and \<open>growChildAndRemove\<close>, and by the three
  others as well. The pool is assumed to hold blank nodes, and a call that panics has no
  result to speak of.
\<close>

theorem arity_preserved:
  "(arity n \<and> pool_ok fl \<longrightarrow>
      (\<forall>i item a b fl'. split_node n i fl = Inr (item, a, b, fl') \<longrightarrow> arity a \<and> arity b)
    \<and> (\<forall>i mx sp n' fl'. maybeSplitChild n i mx fl = Inr (sp, n', fl') \<longrightarrow> arity n')
    \<and> (\<forall>(Less :: 'a \<Rightarrow> 'a Item \<Rightarrow> 'c \<Rightarrow> bool) ctx item mx out n' fl'.
          insert_node Less ctx n item mx fl = Inr (out, n', fl') \<longrightarrow> arity n'))
   \<and> (shape h n \<and> pool_ok fl \<longrightarrow>
      (\<forall>i item a b fl'. split_node n i fl = Inr (item, a, b, fl') \<longrightarrow> shape h a \<and> shape h b)
    \<and> (\<forall>i mx sp n' fl'. maybeSplitChild n i mx fl = Inr (sp, n', fl') \<longrightarrow> shape h n')
    \<and> (\<forall>(Less :: 'a \<Rightarrow> 'a Item \<Rightarrow> 'c \<Rightarrow> bool) ctx item mx out n' fl'.
          insert_node Less ctx n item mx fl = Inr (out, n', fl') \<longrightarrow> shape h n'))
   \<and> (shape h n \<longrightarrow> arity n
    \<and> (\<forall>k (Less :: 'a \<Rightarrow> 'a Item \<Rightarrow> 'c \<Rightarrow> bool) ctx item m ty out n' fl'.
          remove_node k Less ctx n item m ty fl = Some (Inr (out, n', fl'))
          \<longrightarrow> shape h n' \<and> arity n')
    \<and> (\<forall>k (Less :: 'a \<Rightarrow> 'a Item \<Rightarrow> 'c \<Rightarrow> bool) ctx i item m ty out n' fl'.
          growChildAndRemove k Less ctx n i item m ty fl = Some (Inr (out, n', fl'))
          \<longrightarrow> shape h n' \<and> arity n'))"
proof (intro conjI impI allI)
  fix i item a b fl'
  assume a: "arity n \<and> pool_ok fl" "split_node n i fl = Inr (item, a, b, fl')"
  show "arity a" "arity b" using arity_split_node [OF _ _ a(2)] a(1) by simp_all
next
  fix i mx sp n' fl'
  assume a: "arity n \<and> pool_ok fl" "maybeSplitChild n i mx fl = Inr (sp, n', fl')"
  show "arity n'" using arity_maybeSplitChild [OF _ _ a(2)] a(1) by simp
next
  fix Less :: "'a \<Rightarrow> 'a Item \<Rightarrow> 'c \<Rightarrow> bool" and ctx item mx out n' fl'
  assume a: "arity n \<and> pool_ok fl" "insert_node Less ctx n item mx fl = Inr (out, n', fl')"
  show "arity n'" using arity_insert_node [OF a(2)] a(1) by simp
next
  fix i item a b fl'
  assume a: "shape h n \<and> pool_ok fl" "split_node n i fl = Inr (item, a, b, fl')"
  show "shape h a" "shape h b" using shape_split_node [OF _ _ a(2)] a(1) by simp_all
next
  fix i mx sp n' fl'
  assume a: "shape h n \<and> pool_ok fl" "maybeSplitChild n i mx fl = Inr (sp, n', fl')"
  show "shape h n'" using shape_maybeSplitChild [OF _ _ a(2)] a(1) by simp
next
  fix Less :: "'a \<Rightarrow> 'a Item \<Rightarrow> 'c \<Rightarrow> bool" and ctx item mx out n' fl'
  assume a: "shape h n \<and> pool_ok fl" "insert_node Less ctx n item mx fl = Inr (out, n', fl')"
  show "shape h n'" using shape_insert_node [OF a(2)] a(1) by simp
next
  assume "shape h n"
  then show "arity n" by (rule shape_arity)
next
  fix k and Less :: "'a \<Rightarrow> 'a Item \<Rightarrow> 'c \<Rightarrow> bool" and ctx item m ty out n' fl'
  assume a: "shape h n" "remove_node k Less ctx n item m ty fl = Some (Inr (out, n', fl'))"
  show "shape h n'"
    using remove_node_shape [of h n k Less ctx item m ty fl out n' fl'] a by simp
  then show "arity n'" by (rule shape_arity)
next
  fix k and Less :: "'a \<Rightarrow> 'a Item \<Rightarrow> 'c \<Rightarrow> bool" and ctx i item m ty out n' fl'
  assume a: "shape h n"
    "growChildAndRemove k Less ctx n i item m ty fl = Some (Inr (out, n', fl'))"
  show "shape h n'"
    using remove_node_shape [of h n k Less ctx item m ty fl out n' fl' i] a by simp
  then show "arity n'" by (rule shape_arity)
qed

theorem arity_preserved_witness:
  "shape 1 (Node [Some 5] [Node [Some 1, Some 2, Some 3] [], Node [Some 7] []] :: int node)
   \<and> pool_ok (\<lparr>freelist = [], cap = 32\<rparr> :: int FreeList)
   \<and> insert_node int_Less () (Node [Some 5] [Node [Some 1, Some 2, Some 3] [], Node [Some 7] []])
         (Some 4) 3 \<lparr>freelist = [], cap = 32\<rparr>
       = Inr (None, Node [Some 2, Some 5] [Node [Some 1] [], Node [Some 3, Some 4] [], Node [Some 7] []],
              \<lparr>freelist = [], cap = 32\<rparr>)
   \<and> arity (Node [Some 2, Some 5] [Node [Some 1] [], Node [Some 3, Some 4] [], Node [Some 7] []]
              :: int node)
   \<and> remove_node 4 int_Less () (Node [Some 5] [Node [Some 1, Some 2, Some 3] [], Node [Some 7] []])
         (Some 7) 1 removeItem \<lparr>freelist = [], cap = 32\<rparr>
       = Some (Inr (Some 7, Node [Some 3] [Node [Some 1, Some 2] [], Node [Some 5] []],
                    \<lparr>freelist = [], cap = 32\<rparr>))
   \<and> arity (Node [Some 3] [Node [Some 1, Some 2] [], Node [Some 5] []] :: int node)"
proof -
  let ?n = "Node [Some 5] [Node [Some 1, Some 2, Some 3] [], Node [Some 7] []] :: int node"
  let ?fl = "\<lparr>freelist = [], cap = 32\<rparr> :: int FreeList"
  have sh: "shape 1 ?n" by code_simp
  have p: "pool_ok ?fl" by (simp add: pool_ok_def)
  have i: "insert_node int_Less () ?n (Some 4) 3 ?fl
       = Inr (None, Node [Some 2, Some 5] [Node [Some 1] [], Node [Some 3, Some 4] [], Node [Some 7] []],
              ?fl)"
    by code_simp
  have r: "remove_node 4 int_Less () ?n (Some 7) 1 removeItem ?fl
       = Some (Inr (Some 7, Node [Some 3] [Node [Some 1, Some 2] [], Node [Some 5] []], ?fl))"
    by code_simp
  note T = arity_preserved [where ?'c = unit and n = ?n and fl = ?fl and h = 1]
  have "arity (Node [Some 2, Some 5] [Node [Some 1] [], Node [Some 3, Some 4] [], Node [Some 7] []]
                :: int node)"
    by (rule T [THEN conjunct1, THEN mp, OF conjI [OF shape_arity [OF sh] p],
                THEN conjunct2, THEN conjunct2, rule_format, OF i])
  moreover have "arity (Node [Some 3] [Node [Some 1, Some 2] [], Node [Some 5] []] :: int node)"
    by (rule T [THEN conjunct2, THEN conjunct2, THEN mp, OF sh, THEN conjunct2, THEN conjunct1,
                rule_format, OF r, THEN conjunct2])
  ultimately show ?thesis using sh p i r by blast
qed

lemma maybeSplitChild_full:
  assumes "pool_ok fl" and "j < length (children p)" and "j \<le> length (items p)"
    and "length (children (children p ! j)) = 0
         \<or> length (children (children p ! j)) = length (items (children p ! j)) + 1"
    and "mx \<le> length (items (children p ! j))" and "0 < mx"
  shows "maybeSplitChild p j mx fl =
           Inr (True,
                Node (take j (items p) @ items (children p ! j) ! (mx div 2) # drop j (items p))
                     (take j (children p)
                        @ Node (take (mx div 2) (items (children p ! j)))
                               (take (mx div 2 + 1) (children (children p ! j)))
                        # Node (drop (mx div 2 + 1) (items (children p ! j)))
                               (drop (mx div 2 + 1) (children (children p ! j)))
                        # drop (j + 1) (children p)),
                snd (newNode fl))"
proof -
  let ?c = "children p ! j"
  have k: "mx div 2 < length (items ?c)" using assms(5,6) by simp
  have ar: "children ?c = [] \<or> mx div 2 < length (children ?c)"
    using assms(4) k by auto
  have "take (Suc j) ((children p)[j := x]) = take j (children p) @ [x]" for x
    using assms(2) by (simp add: take_Suc_conv_app_nth)
  then show ?thesis
    using assms(2,3,5) split_node_blank [OF assms(1) k ar]
    by (simp add: maybeSplitChild_def insertAt_def)
qed

text \<open>
  C4. For a node with more than \<open>i\<close> items that satisfies the arity invariant, and a pool
  of blank nodes, \<open>split(i)\<close> returns the item at \<open>i\<close> and a sibling holding exactly the
  items after \<open>i\<close> and, for an internal node, the children after \<open>i\<close>; the receiver keeps
  the items before \<open>i\<close> and the children up to \<open>i\<close>. With \<open>maxItems = 2d - 1\<close>, a node
  of \<open>maxItems\<close> items split at \<open>maxItems / 2\<close> leaves \<open>d - 1\<close> items in either half, and
  that is the split \<open>maybeSplitChild\<close> performs on a full child.
\<close>

theorem split_node_halves:
  assumes "pool_ok fl" and "i < length (items n)"
    and "length (children n) = 0 \<or> length (children n) = length (items n) + 1"
  shows "split_node n i fl =
           Inr (items n ! i,
                Node (take i (items n)) (take (i + 1) (children n)),
                Node (drop (i + 1) (items n)) (drop (i + 1) (children n)),
                snd (newNode fl))
         \<and> (\<forall>d. 1 \<le> d \<and> length (items n) = 2 * d - 1 \<and> i = (2 * d - 1) div 2
               \<longrightarrow> i = d - 1 \<and> length (take i (items n)) = d - 1
                   \<and> length (drop (i + 1) (items n)) = d - 1)
         \<and> (\<forall>p j d. 1 \<le> d \<and> length (items n) = 2 * d - 1 \<and> j < length (children p)
                    \<and> j \<le> length (items p) \<and> children p ! j = n
               \<longrightarrow> (\<exists>p'. maybeSplitChild p j (2 * d - 1) fl = Inr (True, p', snd (newNode fl))
                         \<and> items p' ! j = items n ! (d - 1)
                         \<and> length (items (children p' ! j)) = d - 1
                         \<and> length (items (children p' ! (j + 1))) = d - 1))"
proof (intro conjI allI impI)
  have ar: "children n = [] \<or> i < length (children n)"
    using assms(2,3) by auto
  show "split_node n i fl =
           Inr (items n ! i,
                Node (take i (items n)) (take (i + 1) (children n)),
                Node (drop (i + 1) (items n)) (drop (i + 1) (children n)),
                snd (newNode fl))"
    by (rule split_node_blank [OF assms(1,2) ar])
next
  fix d
  assume "1 \<le> d \<and> length (items n) = 2 * d - 1 \<and> i = (2 * d - 1) div 2"
  then show "i = d - 1" "length (take i (items n)) = d - 1"
    "length (drop (i + 1) (items n)) = d - 1"
    by auto
next
  fix p j d
  assume a: "1 \<le> d \<and> length (items n) = 2 * d - 1 \<and> j < length (children p)
             \<and> j \<le> length (items p) \<and> children p ! j = n"
  have h: "(2 * d - 1) div 2 = d - 1" using a by auto
  let ?p' = "Node (take j (items p) @ items n ! (d - 1) # drop j (items p))
                     (take j (children p)
                        @ Node (take (d - 1) (items n)) (take (d - 1 + 1) (children n))
                        # Node (drop (d - 1 + 1) (items n)) (drop (d - 1 + 1) (children n))
                        # drop (j + 1) (children p))"
  have m: "maybeSplitChild p j (2 * d - 1) fl = Inr (True, ?p', snd (newNode fl))"
    using maybeSplitChild_full [OF assms(1), of j p "2 * d - 1"] a assms(3) h by simp
  have "items ?p' ! j = items n ! (d - 1)"
    using a by (simp add: nth_append)
  moreover have "length (items (children ?p' ! j)) = d - 1"
    using a by (simp add: nth_append)
  moreover have "length (items (children ?p' ! (j + 1))) = d - 1"
    using a by (simp add: nth_append)
  ultimately show "\<exists>p'. maybeSplitChild p j (2 * d - 1) fl = Inr (True, p', snd (newNode fl))
                         \<and> items p' ! j = items n ! (d - 1)
                         \<and> length (items (children p' ! j)) = d - 1
                         \<and> length (items (children p' ! (j + 1))) = d - 1"
    using m by blast
qed

theorem split_node_halves_witness:
  "pool_ok (\<lparr>freelist = [Node [] []], cap = 32\<rparr> :: int FreeList)
   \<and> split_node (Node [Some 1, Some 2, Some 3] [Node [Some 0] [], Node [] [], Node [] [], Node [Some 9] []])
        1 \<lparr>freelist = [Node [] []], cap = 32\<rparr>
      = Inr (Some (2 :: int), Node [Some 1] [Node [Some 0] [], Node [] []],
             Node [Some 3] [Node [] [], Node [Some 9] []], \<lparr>freelist = [], cap = 32\<rparr>)
   \<and> maybeSplitChild (Node [Some 5] [Node [Some 1, Some 2, Some 3] [], Node [Some 7] []]) 0 3
        \<lparr>freelist = [Node [] []], cap = 32\<rparr>
      = Inr (True, Node [Some (2 :: int), Some 5] [Node [Some 1] [], Node [Some 3] [], Node [Some 7] []],
             \<lparr>freelist = [], cap = 32\<rparr>)"
proof -
  have p: "pool_ok (\<lparr>freelist = [Node [] []], cap = 32\<rparr> :: int FreeList)"
    by (simp add: pool_ok_def blank_def)
  have m: "maybeSplitChild (Node [Some 5] [Node [Some 1, Some 2, Some 3] [], Node [Some 7] []]) 0 3
        \<lparr>freelist = [Node [] []], cap = 32\<rparr>
      = Inr (True, Node [Some (2 :: int), Some 5] [Node [Some 1] [], Node [Some 3] [], Node [Some 7] []],
             \<lparr>freelist = [], cap = 32\<rparr>)"
    by code_simp
  show ?thesis
    using split_node_halves [OF p, of 1
        "Node [Some 1, Some 2, Some 3] [Node [Some 0] [], Node [] [], Node [] [], Node [Some 9] []]"]
      p m
    by (simp add: newNode_def)
qed

subsection \<open>The ascending sequence of a node\<close>

lemma interleave_append:
  "length ls1 = length s1 \<Longrightarrow>
     interleave (ls1 @ ls2) (s1 @ s2) = interleave ls1 s1 @ interleave ls2 s2"
proof (induction ls1 arbitrary: s1)
  case Nil
  then show ?case by simp
next
  case (Cons l ls1)
  then show ?case by (cases s1) auto
qed

lemma interleave_append_internal:
  "length ls1 = length s1 + 1 \<Longrightarrow>
     interleave (ls1 @ ls2) (s1 @ x # s2) = interleave ls1 s1 @ x # interleave ls2 s2"
proof (induction ls1 arbitrary: s1)
  case Nil
  then show ?case by simp
next
  case (Cons l ls1)
  then show ?case by (cases s1) auto
qed

lemma interleave_head:
  "interleave ((a @ b) # ls) s = a @ interleave (b # ls) s"
  by (cases s) auto

lemma interleave_single: "interleave [l] [] = l"
  by simp

lemma inorder_node: "inorder n = interleave (map inorder (children n)) (items n)"
  by (cases n) simp

lemma inorder_leaf: "children n = [] \<Longrightarrow> inorder n = items n"
  by (simp add: inorder_node)

lemma inorder_at:
  assumes "length cs1 = length s1"
  shows "inorder (Node (s1 @ x # s2) (cs1 @ c # d # cs2)) =
           interleave (map inorder cs1) s1 @ inorder c @ x # interleave (inorder d # map inorder cs2) s2"
  using assms interleave_append [of "map inorder cs1" s1 "inorder c # inorder d # map inorder cs2" "x # s2"]
  by simp

lemma set_interleave_items: "length ls = 0 \<or> length ls = length s + 1 \<Longrightarrow> set s \<subseteq> set (interleave ls s)"
proof (induction ls s rule: interleave.induct)
  case (1 s)
  then show ?case by simp
next
  case (2 l ls)
  then show ?case by simp
next
  case (3 l ls x s)
  then show ?case by auto
qed

lemma set_items_inorder:
  assumes "arity n"
  shows "set (items n) \<subseteq> set (inorder n)"
  using set_interleave_items [of "map inorder (children n)" "items n"] arityD(1) [OF assms]
  by (simp add: inorder_node)

lemma set_interleave_children:
  "length ls = length s + 1 \<Longrightarrow> l \<in> set ls \<Longrightarrow> set l \<subseteq> set (interleave ls s)"
proof (induction ls s rule: interleave.induct)
  case (1 s)
  then show ?case by simp
next
  case (2 l' ls)
  then show ?case by simp
next
  case (3 l' ls x s)
  then show ?case by auto
qed

lemma set_child_inorder:
  assumes "length (children n) = length (items n) + 1" and "c \<in> set (children n)"
  shows "set (inorder c) \<subseteq> set (inorder n)"
  using set_interleave_children [of "map inorder (children n)" "items n" "inorder c"] assms
  by (simp add: inorder_node)

lemma sorted_wrt_interleave_items:
  "length ls = 0 \<or> length ls = length s + 1 \<Longrightarrow> sorted_wrt R (interleave ls s) \<Longrightarrow> sorted_wrt R s"
proof (induction ls s rule: interleave.induct)
  case (1 s)
  then show ?case by simp
next
  case (2 l ls)
  then show ?case by simp
next
  case (3 l ls x s)
  have len: "length ls = 0 \<or> length ls = length s + 1"
    using 3(2) by (cases ls) auto
  have "sorted_wrt R (x # interleave ls s)"
    using 3(3) by (simp add: sorted_wrt_append)
  then have "sorted_wrt R s" "\<forall>y \<in> set (interleave ls s). R x y"
    using 3(1) [OF len] by auto
  then show ?case
    using set_interleave_items [OF len] by auto
qed

lemma ascending_append:
  "ascending Less ctx (xs @ ys) =
     (ascending Less ctx xs \<and> ascending Less ctx ys
      \<and> (\<forall>a \<in> set xs. \<forall>b \<in> set ys. item_less Less ctx a b))"
  by (auto simp: ascending_def sorted_wrt_append)

lemma ascending_Cons:
  "ascending Less ctx (x # xs) =
     (x \<noteq> None \<and> ascending Less ctx xs \<and> (\<forall>b \<in> set xs. item_less Less ctx x b))"
  by (cases x) (auto simp: ascending_def)

lemma ascending_items:
  assumes "arity n" and "ascending Less ctx (inorder n)"
  shows "ascending Less ctx (items n)"
  using assms sorted_wrt_interleave_items [of "map inorder (children n)" "items n"]
    set_items_inorder [OF assms(1)] arityD(1) [OF assms(1)]
  by (auto simp: ascending_def inorder_node)

lemma interleave_equal_last:
  "length ls = length s \<Longrightarrow> s \<noteq> [] \<Longrightarrow> interleave ls s \<noteq> [] \<and> last (interleave ls s) = last s"
proof (induction ls s rule: interleave.induct)
  case (1 s)
  then show ?case by simp
next
  case (2 l ls)
  then show ?case by simp
next
  case (3 l ls x s)
  then show ?case by (cases s) auto
qed

lemma inorder_context:
  assumes "j < length (children n)" and "length (children n) = length (items n) + 1"
  obtains P Q where
    "\<And>c. inorder (Node (items n) ((children n)[j := c])) = P @ inorder c @ Q"
    "\<And>c p. j < length (items n) \<Longrightarrow>
        inorder (Node ((items n)[j := p]) ((children n)[j := c])) = P @ inorder c @ p # tl Q"
    "inorder n = P @ inorder (children n ! j) @ Q"
    "j = 0 \<Longrightarrow> P = []" "0 < j \<Longrightarrow> P \<noteq> [] \<and> last P = items n ! (j - 1)"
    "j = length (items n) \<Longrightarrow> Q = []" "j < length (items n) \<Longrightarrow> Q \<noteq> [] \<and> hd Q = items n ! j"
proof -
  define P where "P = interleave (map inorder (take j (children n))) (take j (items n))"
  define Q where "Q = (if j < length (items n)
                       then items n ! j # interleave (map inorder (drop (j + 1) (children n)))
                                                     (drop (j + 1) (items n))
                       else [])"
  have jl: "j \<le> length (items n)" using assms by simp
  have upd: "(children n)[j := c] = take j (children n) @ c # drop (j + 1) (children n)" for c
    using assms(1) by (simp add: upd_conv_take_nth_drop)
  have 1: "inorder (Node s ((children n)[j := c])) = P @ inorder c @ Q"
    if "take j s = take j (items n)" "drop (j + 1) s = drop (j + 1) (items n)"
       "length s = length (items n)" "j < length s \<Longrightarrow> s ! j = items n ! j" for s c
  proof -
    have s: "s = take j s @ drop j s" by simp
    have len: "length (map inorder (take j (children n))) = length (take j s)"
      using assms jl that(3) by simp
    have "inorder (Node s ((children n)[j := c]))
          = interleave (map inorder (take j (children n)) @ (inorder c # map inorder (drop (j + 1) (children n))))
                       (take j s @ drop j s)"
      by (simp add: upd)
    also have "\<dots> = interleave (map inorder (take j (children n))) (take j s)
                    @ interleave (inorder c # map inorder (drop (j + 1) (children n))) (drop j s)"
      by (rule interleave_append [OF len])
    also have "interleave (inorder c # map inorder (drop (j + 1) (children n))) (drop j s)
               = inorder c @ Q"
    proof (cases "j < length (items n)")
      case True
      then have "drop j s = items n ! j # drop (j + 1) (items n)"
        using that by (metis Cons_nth_drop_Suc Suc_eq_plus1)
      then show ?thesis using True by (simp add: Q_def)
    next
      case False
      then show ?thesis using that(3) by (simp add: Q_def)
    qed
    finally show ?thesis using that(1) by (simp add: P_def)
  qed
  have a: "inorder (Node (items n) ((children n)[j := c])) = P @ inorder c @ Q" for c
    by (rule 1) simp_all
  have b: "inorder n = P @ inorder (children n ! j) @ Q"
    using a [of "children n ! j"] by (cases n) simp
  have 2: "inorder (Node s ((children n)[j := c])) = P @ inorder c @ p # tl Q"
    if "j < length (items n)" "s = (items n)[j := p]" for s c p
  proof -
    have s: "s = take j s @ drop j s" by simp
    have len: "length (map inorder (take j (children n))) = length (take j s)"
      using assms jl that by simp
    have "inorder (Node s ((children n)[j := c]))
          = interleave (map inorder (take j (children n)) @ (inorder c # map inorder (drop (j + 1) (children n))))
                       (take j s @ drop j s)"
      by (simp add: upd)
    also have "\<dots> = interleave (map inorder (take j (children n))) (take j s)
                    @ interleave (inorder c # map inorder (drop (j + 1) (children n))) (drop j s)"
      by (rule interleave_append [OF len])
    also have "drop j s = p # drop (j + 1) (items n)"
      using that by (simp add: drop_update_cancel Cons_nth_drop_Suc [symmetric] upd_conv_take_nth_drop)
    finally show ?thesis using that by (simp add: P_def Q_def)
  qed
  have c: "inorder (Node ((items n)[j := p]) ((children n)[j := c])) = P @ inorder c @ p # tl Q"
    if "j < length (items n)" for c p
    using 2 [OF that] by simp
  have d: "j = 0 \<Longrightarrow> P = []" by (simp add: P_def)
  have e: "P \<noteq> [] \<and> last P = items n ! (j - 1)" if "0 < j"
  proof -
    have "take j (items n) \<noteq> []" using that jl by auto
    moreover have "length (map inorder (take j (children n))) = length (take j (items n))"
      using assms jl by simp
    ultimately have "P \<noteq> [] \<and> last P = last (take j (items n))"
      unfolding P_def by (rule interleave_equal_last [rotated])
    moreover have "last (take j (items n)) = items n ! (j - 1)"
      using that jl \<open>take j (items n) \<noteq> []\<close> by (simp add: last_conv_nth min_def)
    ultimately show ?thesis by simp
  qed
  have f: "j = length (items n) \<Longrightarrow> Q = []" by (simp add: Q_def)
  have g: "j < length (items n) \<Longrightarrow> Q \<noteq> [] \<and> hd Q = items n ! j" by (simp add: Q_def)
  show thesis
    using that [of P Q] a b c d e f g by blast
qed

subsection \<open>The growing step in detail\<close>

lemma node_at':
  assumes "j < length (items n)" and "length (children n) = length (items n) + 1"
  obtains s1 x s2 cs1 c d cs2 where
    "n = Node (s1 @ x # s2) (cs1 @ c # d # cs2)" "length s1 = j" "length cs1 = j"
  using node_at [OF assms] by metis

lemma growChild_cases:
  assumes "length (children n) = length (items n) + 1"
    and "growChild n i m fl = Inr (n', fl')"
  obtains
    (left) s1 x s2 cs1 cs2 l c where
      "n = Node (s1 @ x # s2) (cs1 @ l # c # cs2)" "length cs1 = length s1"
      "i = Suc (length s1)" "m < length (items l)"
      "n' = Node (s1 @ last (items l) # s2)
                 (cs1 @ Node (butlast (items l)) (butlast (children l))
                      # Node (x # items c)
                             ((if children l = [] then [] else [last (children l)]) @ children c)
                      # cs2)"
      "fl' = fl"
  | (right) s1 x s2 cs1 cs2 c r where
      "n = Node (s1 @ x # s2) (cs1 @ c # r # cs2)" "length cs1 = length s1"
      "i = length s1" "m < length (items r)"
      "n' = Node (s1 @ hd (items r) # s2)
                 (cs1 @ Node (items c @ [x])
                             (children c @ (if children r = [] then [] else [hd (children r)]))
                      # Node (tl (items r)) (tl (children r))
                      # cs2)"
      "fl' = fl"
  | (merge) s1 x s2 cs1 cs2 c d where
      "n = Node (s1 @ x # s2) (cs1 @ c # d # cs2)" "length cs1 = length s1"
      "i = length s1 \<or> (i = Suc (length s1) \<and> s2 = [])"
      "length (items c) \<le> m \<or> length (items d) \<le> m"
      "n' = Node (s1 @ s2) (cs1 @ Node (items c @ [x] @ items d) (children c @ children d) # cs2)"
      "fl' = t_freeNode fl d"
proof -
  note len = assms(1)
  have i: "i < length (children n)"
    using assms(2) by (auto simp: growChild_def split: if_splits)
  consider (l) "0 < i \<and> m < length (items (children n ! (i - 1)))"
    | (r) "\<not> (0 < i \<and> m < length (items (children n ! (i - 1))))"
        "i < length (items n) \<and> m < length (items (children n ! (i + 1)))"
    | (m) "\<not> (0 < i \<and> m < length (items (children n ! (i - 1))))"
        "\<not> (i < length (items n) \<and> m < length (items (children n ! (i + 1))))"
    by blast
  then show thesis
  proof cases
    case l
    have n': "n' = stealLeft n i" "fl' = fl"
      using growChild_left [OF i len, of m fl] assms(2) l by simp_all
    have j: "i - 1 < length (items n)" using l i len by auto
    obtain s1 x s2 cs1 a b cs2 where
      n: "n = Node (s1 @ x # s2) (cs1 @ a # b # cs2)"
      and ls: "length s1 = i - 1" "length cs1 = i - 1"
      using node_at' [OF j len] by blast
    have i2: "i = Suc (length s1)" using ls l by simp
    have ma: "m < length (items a)"
      using l by (subst (asm) n) (simp add: ls nth_append)
    have X: "n' = Node (s1 @ last (items a) # s2)
                 (cs1 @ Node (butlast (items a)) (butlast (children a))
                      # Node (x # items b)
                             ((if children a = [] then [] else [last (children a)]) @ children b)
                      # cs2)"
      unfolding n'(1) by (subst n, subst i2, rule stealLeft_append) (simp add: ls)
    show ?thesis
      by (rule left [OF n _ i2 ma X n'(2)]) (simp add: ls)
  next
    case r
    have n': "n' = stealRight n i" "fl' = fl"
      using growChild_right [OF i len r(1), of fl] assms(2) r by simp_all
    have il: "i < length (items n)" using r by simp
    obtain s1 x s2 cs1 a b cs2 where
      n: "n = Node (s1 @ x # s2) (cs1 @ a # b # cs2)"
      and ls: "length s1 = i" "length cs1 = i"
      using node_at' [OF il len] by blast
    have mb: "m < length (items b)"
      using r(2) by (subst (asm) (2) n) (simp add: ls nth_append)
    have X: "n' = Node (s1 @ hd (items b) # s2)
                 (cs1 @ Node (items a @ [x])
                             (children a @ (if children b = [] then [] else [hd (children b)]))
                      # Node (tl (items b)) (tl (children b))
                      # cs2)"
      unfolding n'(1) by (subst n, subst ls(1) [symmetric], rule stealRight_append) (simp add: ls)
    show ?thesis
      by (rule right [OF n _ ls(1) [symmetric] mb X n'(2)]) (simp add: ls)
  next
    case m
    have ne: "items n \<noteq> []"
      using growChild_empty [OF i len, of m fl] assms(2) by auto
    define j where "j = (if length (items n) \<le> i then i - 1 else i)"
    have n': "n' = mergeAt n j" "fl' = t_freeNode fl (children n ! (j + 1))"
      using growChild_merge [OF i len m ne j_def, of fl] assms(2) by simp_all
    have jl: "j < length (items n)" using i len ne by (cases "items n") (auto simp: j_def)
    obtain s1 x s2 cs1 a b cs2 where
      n: "n = Node (s1 @ x # s2) (cs1 @ a # b # cs2)"
      and ls: "length s1 = j" "length cs1 = j"
      using node_at' [OF jl len] by blast
    have ca: "children n ! j = a" "children n ! (j + 1) = b" "length (items n) = length s1 + 1 + length s2"
      by (subst n, simp add: ls nth_append)+
    have small: "length (items a) \<le> m \<or> length (items b) \<le> m"
    proof (cases "length (items n) \<le> i")
      case True
      then have "0 < i" "j = i - 1" using ne by (cases "items n", auto simp: j_def)+
      then show ?thesis using m(1) ca by auto
    next
      case False
      then have "j = i" by (simp add: j_def)
      then show ?thesis using m(2) False ca by auto
    qed
    have idx: "i = length s1 \<or> (i = Suc (length s1) \<and> s2 = [])"
    proof (cases "length (items n) \<le> i")
      case True
      then have "i = length (items n)" using i len by simp
      moreover have "j = i - 1" using True by (simp add: j_def)
      ultimately have "length s2 = 0 \<and> i = Suc (length s1)" using ls ca(3) by arith
      then show ?thesis by simp
    next
      case False
      then show ?thesis using ls by (simp add: j_def)
    qed
    have X: "n' = Node (s1 @ s2) (cs1 @ Node (items a @ [x] @ items b) (children a @ children b) # cs2)"
      unfolding n'(1) by (subst n, subst ls(1) [symmetric], rule mergeAt_append) (simp add: ls)
    have Y: "fl' = t_freeNode fl b" using n'(2) ca(2) by simp
    show ?thesis
      by (rule merge [OF n _ idx small X Y]) (simp add: ls)
  qed
qed

lemma growChild_total:
  assumes "i < length (children n)" and "length (children n) = length (items n) + 1"
    and "items n \<noteq> []"
  shows "\<exists>n' fl'. growChild n i m fl = Inr (n', fl')"
  unfolding growChild_eq [OF assms(1,2)] using assms(3) by (auto simp: Let_def)

lemma boundedD:
  assumes "bounded m n" and "c \<in> set (children n)"
  shows "m \<le> length (items c)" and "bounded m c"
  using assms by (cases n, simp)+

lemma boundedI:
  assumes "\<And>c. c \<in> set (children n) \<Longrightarrow> m \<le> length (items c) \<and> bounded m c"
  shows "bounded m n"
  using assms by (cases n) simp

lemma bounded_Node:
  "bounded m (Node s cs) = (\<forall>c \<in> set cs. m \<le> length (items c) \<and> bounded m c)"
  by simp

lemma inorder_butlast:
  assumes "shape h l" and "items l \<noteq> []"
  shows "inorder l = inorder (Node (butlast (items l)) (butlast (children l)))
                       @ last (items l) # (if children l = [] then [] else inorder (last (children l)))"
proof (cases "children l = []")
  case True
  then show ?thesis using assms(2) by (simp add: inorder_leaf)
next
  case False
  then obtain k where h: "h = Suc k" using shape_height [OF assms(1)] by (cases h) auto
  have len: "length (children l) = length (items l) + 1"
    using assms(1) by (simp add: h shape_Suc)
  have "interleave (map inorder (butlast (children l)) @ [inorder (last (children l))])
                   (butlast (items l) @ last (items l) # [])
        = interleave (map inorder (butlast (children l))) (butlast (items l))
            @ last (items l) # interleave [inorder (last (children l))] []"
    by (rule interleave_append_internal) (use len assms(2) in simp)
  moreover have "map inorder (butlast (children l)) @ [inorder (last (children l))]
                 = map inorder (children l)"
    using False by (metis append_butlast_last_id list.simps(8,9) map_append)
  ultimately show ?thesis
    using False assms(2) by (simp add: inorder_node [of l])
qed

lemma inorder_tl:
  assumes "shape h r" and "items r \<noteq> []"
  shows "inorder r = (if children r = [] then [] else inorder (hd (children r)))
                       @ hd (items r) # inorder (Node (tl (items r)) (tl (children r)))"
proof (cases "children r = []")
  case True
  then show ?thesis using assms(2) by (simp add: inorder_leaf)
next
  case False
  then obtain c cs where c: "children r = c # cs" by (cases "children r") auto
  obtain x s where x: "items r = x # s" using assms(2) by (cases "items r") auto
  show ?thesis by (simp add: inorder_node [of r] c x)
qed

lemma inorder_push_front:
  assumes "shape h l" and "shape h c"
  shows "inorder (Node (x # items c) ((if children l = [] then [] else [last (children l)]) @ children c))
         = (if children l = [] then [] else inorder (last (children l))) @ x # inorder c"
proof (cases "children l = []")
  case True
  then have "children c = []" using shape_height [OF assms(1)] shape_height [OF assms(2)] by simp
  then show ?thesis using True by (simp add: inorder_leaf)
next
  case False
  then show ?thesis by (simp add: inorder_node [of c])
qed

lemma inorder_push_back:
  assumes "shape h r" and "shape h c"
  shows "inorder (Node (items c @ [x]) (children c @ (if children r = [] then [] else [hd (children r)])))
         = inorder c @ x # (if children r = [] then [] else inorder (hd (children r)))"
proof (cases "children r = []")
  case True
  then have "children c = []" using shape_height [OF assms(1)] shape_height [OF assms(2)] by simp
  then show ?thesis using True by (simp add: inorder_leaf)
next
  case False
  then obtain k where h: "h = Suc k" using shape_height [OF assms(1)] by (cases h) auto
  have len: "length (map inorder (children c)) = length (items c) + 1"
    using assms(2) by (simp add: h shape_Suc)
  show ?thesis
    using False interleave_append_internal [OF len, of "[inorder (hd (children r))]" x "[]"]
    by (simp add: inorder_node [of c])
qed

lemma inorder_merged:
  assumes "shape h c" and "shape h d"
  shows "inorder (Node (items c @ [x] @ items d) (children c @ children d))
         = inorder c @ x # inorder d"
proof (cases "children c = []")
  case True
  then have "children d = []" using shape_height [OF assms(1)] shape_height [OF assms(2)] by simp
  then show ?thesis using True by (simp add: inorder_leaf)
next
  case False
  then obtain k where h: "h = Suc k" using shape_height [OF assms(1)] by (cases h) auto
  have len: "length (map inorder (children c)) = length (items c) + 1"
    using assms(1) by (simp add: h shape_Suc)
  show ?thesis
    using interleave_append_internal [OF len, of "map inorder (children d)" x "items d"]
    by (simp add: inorder_node [of c] inorder_node [of d])
qed

lemma shape_at:
  assumes "shape (Suc h) (Node (s1 @ x # s2) (cs1 @ c # d # cs2))"
  shows "shape h c" and "shape h d" and "length cs1 + length cs2 = length s1 + length s2"
    and "\<And>e. e \<in> set cs1 \<union> set cs2 \<Longrightarrow> shape h e"
  using assms by auto

lemma growChild_inorder:
  assumes "shape (Suc h) n" and "growChild n i m fl = Inr (n', fl')"
  shows "inorder n' = inorder n"
proof -
  have len: "length (children n) = length (items n) + 1"
    using assms(1) by (simp add: shape_Suc)
  from len assms(2) show ?thesis
  proof (cases rule: growChild_cases)
    case (left s1 x s2 cs1 cs2 l c)
    note sh = shape_at [OF assms(1) [unfolded left(1)]]
    have ne: "items l \<noteq> []" using left(4) by auto
    define l' where "l' = Node (butlast (items l)) (butlast (children l))"
    define c' where "c' = Node (x # items c)
                            ((if children l = [] then [] else [last (children l)]) @ children c)"
    define K where "K = (if children l = [] then [] else inorder (last (children l)))"
    have il: "inorder l = inorder l' @ last (items l) # K"
      unfolding l'_def K_def by (rule inorder_butlast [OF sh(1) ne])
    have ic: "inorder c' = K @ x # inorder c"
      unfolding c'_def K_def by (rule inorder_push_front [OF sh(1,2)])
    have "inorder n' = interleave (map inorder cs1) s1 @ inorder l' @ last (items l)
                         # interleave (inorder c' # map inorder cs2) s2"
      unfolding left(5) l'_def [symmetric] c'_def [symmetric] by (rule inorder_at [OF left(2)])
    moreover have "interleave (inorder c' # map inorder cs2) s2
                   = (K @ [x]) @ interleave (inorder c # map inorder cs2) s2"
      unfolding ic using interleave_head [of "K @ [x]" "inorder c"] by simp
    moreover have "inorder n = interleave (map inorder cs1) s1 @ inorder l @ x
                         # interleave (inorder c # map inorder cs2) s2"
      by (subst left(1)) (rule inorder_at [OF left(2)])
    ultimately show ?thesis using il by simp
  next
    case (right s1 x s2 cs1 cs2 c r)
    note sh = shape_at [OF assms(1) [unfolded right(1)]]
    have ne: "items r \<noteq> []" using right(4) by auto
    define r' where "r' = Node (tl (items r)) (tl (children r))"
    define c' where "c' = Node (items c @ [x])
                            (children c @ (if children r = [] then [] else [hd (children r)]))"
    define K where "K = (if children r = [] then [] else inorder (hd (children r)))"
    have ir: "inorder r = K @ hd (items r) # inorder r'"
      unfolding r'_def K_def by (rule inorder_tl [OF sh(2) ne])
    have ic: "inorder c' = inorder c @ x # K"
      unfolding c'_def K_def by (rule inorder_push_back [OF sh(2,1)])
    have "inorder n' = interleave (map inorder cs1) s1 @ inorder c' @ hd (items r)
                         # interleave (inorder r' # map inorder cs2) s2"
      unfolding right(5) r'_def [symmetric] c'_def [symmetric] by (rule inorder_at [OF right(2)])
    moreover have "interleave (inorder r # map inorder cs2) s2
                   = (K @ [hd (items r)]) @ interleave (inorder r' # map inorder cs2) s2"
      unfolding ir using interleave_head [of "K @ [hd (items r)]" "inorder r'"] by simp
    moreover have "inorder n = interleave (map inorder cs1) s1 @ inorder c @ x
                         # interleave (inorder r # map inorder cs2) s2"
      by (subst right(1)) (rule inorder_at [OF right(2)])
    ultimately show ?thesis using ic by simp
  next
    case (merge s1 x s2 cs1 cs2 c d)
    note sh = shape_at [OF assms(1) [unfolded merge(1)]]
    define M where "M = Node (items c @ [x] @ items d) (children c @ children d)"
    have im: "inorder M = inorder c @ x # inorder d"
      unfolding M_def by (rule inorder_merged [OF sh(1,2)])
    have "inorder n' = interleave (map inorder cs1) s1
            @ interleave (inorder M # map inorder cs2) s2"
      unfolding merge(5) M_def [symmetric]
      using interleave_append [of "map inorder cs1" s1 "inorder M # map inorder cs2" s2] merge(2)
      by (simp add: inorder_node [of "Node _ _"])
    moreover have "interleave (inorder M # map inorder cs2) s2
            = (inorder c @ [x]) @ interleave (inorder d # map inorder cs2) s2"
      unfolding im using interleave_head [of "inorder c @ [x]" "inorder d"] by simp
    moreover have "inorder n = interleave (map inorder cs1) s1 @ inorder c @ x
                         # interleave (inorder d # map inorder cs2) s2"
      by (subst merge(1)) (rule inorder_at [OF merge(2)])
    ultimately show ?thesis by simp
  qed
qed

subsection \<open>Binary search on a sequence cut in two\<close>

lemma find_item_None: "s \<noteq> [] \<Longrightarrow> find_item Less ctx s None = Inl NilDereference"
  by (simp add: find_item_def find_loop_step [of 0 "length s"])

lemma find_item_char:
  assumes "strict_weak Less ctx" and "ascending Less ctx s"
    and "find_item Less ctx s (Some v) = Inr (i, found)"
  shows "i \<le> length s"
    and "found \<Longrightarrow> i < length s \<and> equivalent Less ctx (s ! i) (Some v)"
    and "\<And>p. p < i \<Longrightarrow> item_less Less ctx (s ! p) (Some v)"
    and "\<And>p. (if found then i < p else i \<le> p) \<Longrightarrow> p < length s
           \<Longrightarrow> item_less Less ctx (Some v) (s ! p)"
  using find_item_asc [OF assms(1,2), of v] assms(3) by auto

lemma find_item_split:
  assumes sw: "strict_weak Less ctx" and asc: "ascending Less ctx (s1 @ s2)"
  shows "(find_item Less ctx (s1 @ s2) (Some v) = Inr (length s1, found)) =
           ((\<forall>a \<in> set s1. item_less Less ctx a (Some v))
            \<and> (if found then s2 \<noteq> [] \<and> equivalent Less ctx (hd s2) (Some v)
                               \<and> (\<forall>b \<in> set (tl s2). item_less Less ctx (Some v) b)
                else \<forall>b \<in> set s2. item_less Less ctx (Some v) b))"
    (is "?L = ?R")
proof
  assume L: ?L
  note ch = find_item_char [OF sw asc L]
  have lo: "\<forall>a \<in> set s1. item_less Less ctx a (Some v)"
  proof
    fix a assume "a \<in> set s1"
    then obtain p where p: "p < length s1" "s1 ! p = a" by (auto simp: in_set_conv_nth)
    then show "item_less Less ctx a (Some v)" using ch(3) [of p] by (simp add: nth_append)
  qed
  have hi: "item_less Less ctx (Some v) (s2 ! q)"
    if "q < length s2" "(if found then 0 < q else True)" for q
    using ch(4) [of "length s1 + q"] that by (auto simp: nth_append split: if_splits)
  show ?R
  proof (cases found)
    case True
    then have ne: "s2 \<noteq> []" using ch(2) by auto
    have "equivalent Less ctx (hd s2) (Some v)"
      using ch(2) True ne by (simp add: nth_append hd_conv_nth)
    moreover have "\<forall>b \<in> set (tl s2). item_less Less ctx (Some v) b"
    proof
      fix b assume "b \<in> set (tl s2)"
      then obtain q where "q < length (tl s2)" "tl s2 ! q = b" by (auto simp: in_set_conv_nth)
      then show "item_less Less ctx (Some v) b"
        using hi [of "Suc q"] True ne by (simp add: nth_tl)
    qed
    ultimately show ?thesis using lo True ne by simp
  next
    case False
    have "\<forall>b \<in> set s2. item_less Less ctx (Some v) b"
    proof
      fix b assume "b \<in> set s2"
      then obtain q where "q < length s2" "s2 ! q = b" by (auto simp: in_set_conv_nth)
      then show "item_less Less ctx (Some v) b" using hi [of q] False by simp
    qed
    then show ?thesis using lo False by simp
  qed
next
  assume R: ?R
  show ?L
  proof (rule find_item_unique [OF sw asc])
    show "length s1 \<le> length (s1 @ s2)" by simp
  next
    assume found
    then show "length s1 < length (s1 @ s2) \<and> equivalent Less ctx ((s1 @ s2) ! length s1) (Some v)"
      using R by (cases s2) auto
  next
    fix p assume "p < length s1"
    then show "item_less Less ctx ((s1 @ s2) ! p) (Some v)"
      using R by (simp add: nth_append)
  next
    fix p assume p: "if found then length s1 < p else length s1 \<le> p" "p < length (s1 @ s2)"
    show "item_less Less ctx (Some v) ((s1 @ s2) ! p)"
    proof (cases found)
      case True
      then have "p - length s1 = Suc (p - length s1 - 1)" using p by simp
      then have "p - length s1 - 1 < length (tl s2)" "(s1 @ s2) ! p = tl s2 ! (p - length s1 - 1)"
        using p True by (auto simp: nth_append nth_tl)
      then show ?thesis using R True by (metis nth_mem)
    next
      case False
      then have "p - length s1 < length s2" "(s1 @ s2) ! p = s2 ! (p - length s1)"
        using p by (auto simp: nth_append)
      then show ?thesis using R False by (metis nth_mem)
    qed
  qed
qed

subsection \<open>Order inside a node\<close>

lemma set_interleave_head: "set l \<subseteq> set (interleave (l # ls) s)"
  by (cases s) auto

lemma ascending_at:
  assumes "ascending Less ctx (inorder (Node (s1 @ x # s2) (cs1 @ c # d # cs2)))"
    and "length cs1 = length s1"
  shows "\<And>a. a \<in> set (inorder c) \<Longrightarrow> item_less Less ctx a x"
    and "\<And>b. b \<in> set (inorder d) \<Longrightarrow> item_less Less ctx x b"
    and "ascending Less ctx (inorder c)" and "ascending Less ctx (inorder d)"
proof -
  let ?I = "interleave (map inorder cs1) s1"
  let ?J = "interleave (inorder d # map inorder cs2) s2"
  have a: "ascending Less ctx (?I @ inorder c @ x # ?J)"
    using assms(1) unfolding inorder_at [OF assms(2)] .
  show "\<And>a. a \<in> set (inorder c) \<Longrightarrow> item_less Less ctx a x"
    using a by (auto simp: ascending_append)
  have xJ: "\<forall>b \<in> set ?J. item_less Less ctx x b" "ascending Less ctx ?J"
    using a by (auto simp: ascending_append ascending_Cons)
  show "\<And>b. b \<in> set (inorder d) \<Longrightarrow> item_less Less ctx x b"
    using xJ(1) set_interleave_head [of "inorder d" "map inorder cs2" s2] by auto
  show "ascending Less ctx (inorder c)"
    using a by (auto simp: ascending_append)
  have "\<exists>R. ?J = inorder d @ R"
    by (cases s2) auto
  then show "ascending Less ctx (inorder d)"
    using xJ(2) by (auto simp: ascending_append)
qed

lemma ascending_child:
  assumes "ascending Less ctx (inorder n)" and "length (children n) = length (items n) + 1"
    and "j < length (children n)"
  shows "ascending Less ctx (inorder (children n ! j))"
proof -
  obtain P Q where "inorder n = P @ inorder (children n ! j) @ Q"
    using inorder_context [OF assms(3,2)] by metis
  then show ?thesis using assms(1) by (simp add: ascending_append)
qed

lemma last_items_inorder:
  assumes "shape h l" and "items l \<noteq> []"
  shows "last (items l) \<in> set (inorder l)"
  using set_items_inorder [OF shape_arity [OF assms(1)]] assms(2) last_in_set by blast

lemma hd_items_inorder:
  assumes "shape h r" and "items r \<noteq> []"
  shows "hd (items r) \<in> set (inorder r)"
  using set_items_inorder [OF shape_arity [OF assms(1)]] assms(2) hd_in_set by blast

lemma bounded_children:
  assumes "bounded m l"
  shows "\<forall>e \<in> set (children l). m \<le> length (items e) \<and> bounded m e"
  using assms by (cases l) simp

lemma bounded_butlast:
  assumes "bounded m l"
  shows "bounded m (Node (butlast (items l)) (butlast (children l)))"
  using bounded_children [OF assms] by (auto dest: in_set_butlastD)

lemma bounded_tl:
  assumes "bounded m r"
  shows "bounded m (Node (tl (items r)) (tl (children r)))"
  using bounded_children [OF assms] by (auto dest: in_set_tl)

lemma bounded_push_front:
  assumes "bounded m l" and "bounded m c"
  shows "bounded m (Node (x # items c) ((if children l = [] then [] else [last (children l)]) @ children c))"
  using bounded_children [OF assms(1)] bounded_children [OF assms(2)] by auto

lemma bounded_push_back:
  assumes "bounded m r" and "bounded m c"
  shows "bounded m (Node (items c @ [x]) (children c @ (if children r = [] then [] else [hd (children r)])))"
  using bounded_children [OF assms(1)] bounded_children [OF assms(2)] by auto

lemma bounded_merged:
  assumes "bounded m c" and "bounded m d"
  shows "bounded m (Node (items c @ [x] @ items d) (children c @ children d))"
  using bounded_children [OF assms(1)] bounded_children [OF assms(2)] by auto

lemma bounded_at:
  assumes "bounded m (Node s (cs1 @ c # d # cs2))"
  shows "bounded m c" and "bounded m d" and "m \<le> length (items c)" and "m \<le> length (items d)"
    and "\<forall>e \<in> set cs1 \<union> set cs2. m \<le> length (items e) \<and> bounded m e"
  using assms by auto

lemma bounded_atI:
  assumes "\<forall>e \<in> set cs1 \<union> set cs2. m \<le> length (items e) \<and> bounded m e"
    and "bounded m c" and "m \<le> length (items c)"
  shows "bounded m (Node s (cs1 @ c # cs2))"
  using assms by auto

lemma bounded_atI2:
  assumes "\<forall>e \<in> set cs1 \<union> set cs2. m \<le> length (items e) \<and> bounded m e"
    and "bounded m c" and "m \<le> length (items c)" and "bounded m d" and "m \<le> length (items d)"
  shows "bounded m (Node s (cs1 @ c # d # cs2))"
  using assms by auto

lemma growChild_bounded:
  assumes "shape (Suc h) n" and "bounded m n" and "growChild n i m fl = Inr (n', fl')"
  shows "bounded m n'"
proof -
  have len: "length (children n) = length (items n) + 1"
    using assms(1) by (simp add: shape_Suc)
  from len assms(3) show ?thesis
  proof (cases rule: growChild_cases)
    case (left s1 x s2 cs1 cs2 l c)
    note b = bounded_at [OF assms(2) [unfolded left(1)]]
    show ?thesis
      unfolding left(5)
      by (rule bounded_atI2 [OF b(5) bounded_butlast [OF b(1)] _ bounded_push_front [OF b(1,2)]])
         (use left(4) b(4) in auto)
  next
    case (right s1 x s2 cs1 cs2 c r)
    note b = bounded_at [OF assms(2) [unfolded right(1)]]
    show ?thesis
      unfolding right(5)
      by (rule bounded_atI2 [OF b(5) bounded_push_back [OF b(2,1)] _ bounded_tl [OF b(2)]])
         (use right(4) b(3) in auto)
  next
    case (merge s1 x s2 cs1 cs2 c d)
    note b = bounded_at [OF assms(2) [unfolded merge(1)]]
    show ?thesis
      unfolding merge(5)
      by (rule bounded_atI [OF b(5) bounded_merged [OF b(1,2)]]) (use b(3) in auto)
  qed
qed

subsection \<open>The retry after the growing step\<close>

lemma remove_switch_internal_eq:
  assumes "children n \<noteq> []"
  shows "remove_switch Less ctx n item ty =
     (if ty = removeMax then Inr (Inr (length (items n), False))
      else if ty = removeMin then Inr (Inr (0, False))
      else if ty = removeItem then
        (case find_item Less ctx (items n) item of
           Inl e \<Rightarrow> Inl e
         | Inr (i, found) \<Rightarrow> Inr (Inr (i, found)))
      else Inl (InternalInvariant ''invalid type''))"
  using assms by (auto simp: remove_switch_def split: sum.splits)

lemma remove_switch_item:
  assumes "remove_switch Less ctx n item removeItem = Inr (Inr (i, found))"
  shows "find_item Less ctx (items n) item = Inr (i, found)"
  using assms remove_switch_internal_eq [OF remove_switch_internal(1) [OF assms], of Less ctx item removeItem]
  by (auto simp: removeItem_def removeMin_def removeMax_def split: sum.splits)

lemma retry_select:
  assumes sw': "ty = removeItem \<Longrightarrow> strict_weak Less ctx"
    and sh: "shape (Suc h) n" and bd: "bounded m n"
    and asc: "ty = removeItem \<Longrightarrow> ascending Less ctx (inorder n)"
    and sel: "remove_switch Less ctx n item ty = Inr (Inr (i, found))"
    and g: "growChild n i m fl = Inr (n', fl')"
  shows "\<exists>i' found'. remove_switch Less ctx n' item ty = Inr (Inr (i', found'))
           \<and> i' < length (children n') \<and> m < length (items (children n' ! i'))
           \<and> (found' \<longrightarrow> found)"
proof -
  have len: "length (children n) = length (items n) + 1"
    using sh by (simp add: shape_Suc)
  have sh': "shape (Suc h) n'" using growChild_shape [OF sh g] .
  have cn': "children n' \<noteq> []" using sh' by (auto simp: shape_Suc)
  have cn: "children n \<noteq> []" using len by auto
  note eq = remove_switch_internal_eq [OF cn, of Less ctx item ty]
  note eq' = remove_switch_internal_eq [OF cn', of Less ctx item ty]
  have fin: "\<And>k f. remove_switch Less ctx n' item ty = Inr (Inr (k, f)) \<Longrightarrow>
     k < length (children n') \<Longrightarrow> m < length (items (children n' ! k)) \<Longrightarrow> (f \<longrightarrow> found)
     \<Longrightarrow> ?thesis"
    by blast
  consider (mx) "ty = removeMax" | (mn) "ty = removeMin" "ty \<noteq> removeMax"
    | (it) "ty = removeItem" "ty \<noteq> removeMax" "ty \<noteq> removeMin"
    using sel eq by (auto split: if_splits)
  then show ?thesis
  proof cases
    case mx
    have i: "i = length (items n)" "\<not> found" using sel eq mx by auto
    have r: "remove_switch Less ctx n' item ty = Inr (Inr (length (items n'), False))"
      using eq' mx by simp
    from len g show ?thesis
    proof (cases rule: growChild_cases)
      case (left s1 x s2 cs1 cs2 l c)
      note b = bounded_at [OF bd [unfolded left(1)]]
      have "s2 = []" using i(1) left(3) by (subst (asm) left(1)) simp
      then have k: "length (items n') = Suc (length s1)" by (simp add: left(5))
      have C: "children n' ! Suc (length s1) = Node (x # items c)
                   ((if children l = [] then [] else [last (children l)]) @ children c)"
        by (simp add: left(5) nth_append left(2))
      show ?thesis
        by (rule fin [OF r]) (use k C b(4) left(2) in \<open>auto simp: left(5)\<close>)
    next
      case (right s1 x s2 cs1 cs2 c r)
      have False using i(1) right(3) by (subst (asm) right(1)) simp
      then show ?thesis ..
    next
      case (merge s1 x s2 cs1 cs2 c d)
      note b = bounded_at [OF bd [unfolded merge(1)]]
      have "i = Suc (length s1) \<and> s2 = []"
        using i(1) merge(3) by (subst (asm) merge(1)) auto
      then have k: "length (items n') = length s1" by (simp add: merge(5))
      have C: "children n' ! length s1 = Node (items c @ [x] @ items d) (children c @ children d)"
        by (simp add: merge(5) nth_append merge(2))
      show ?thesis
        by (rule fin [OF r]) (use k C b(3) merge(2) in \<open>auto simp: merge(5)\<close>)
    qed
  next
    case mn
    have i: "i = 0" "\<not> found" using sel eq mn by auto
    have r: "remove_switch Less ctx n' item ty = Inr (Inr (0, False))"
      using eq' mn by simp
    from len g show ?thesis
    proof (cases rule: growChild_cases)
      case (left s1 x s2 cs1 cs2 l c)
      then show ?thesis using i by simp
    next
      case (right s1 x s2 cs1 cs2 c r')
      note b = bounded_at [OF bd [unfolded right(1)]]
      have "cs1 = []" using i right(2,3) by simp
      then show ?thesis
        by (intro fin [OF r]) (use b(3) in \<open>auto simp: right(5)\<close>)
    next
      case (merge s1 x s2 cs1 cs2 c d)
      note b = bounded_at [OF bd [unfolded merge(1)]]
      have "cs1 = []" using i merge(2,3) by simp
      then show ?thesis
        by (intro fin [OF r]) (use b(3) in \<open>auto simp: merge(5)\<close>)
    qed
  next
    case it
    have sw: "strict_weak Less ctx" using sw' it by simp
    have F: "find_item Less ctx (items n) item = Inr (i, found)"
      using sel it remove_switch_item by simp
    have A: "ascending Less ctx (inorder n)" using asc it by simp
    have A': "ascending Less ctx (inorder n')" using A growChild_inorder [OF sh g] by simp
    have I: "ascending Less ctx (items n)" using ascending_items [OF shape_arity [OF sh] A] .
    have I': "ascending Less ctx (items n')" using ascending_items [OF shape_arity [OF sh'] A'] .
    have ne: "items n \<noteq> []"
      using growChild_empty [OF _ len, of i m fl] g by (auto simp: growChild_def split: if_splits)
    obtain v where v: "item = Some v"
      using F find_item_None [OF ne, of Less ctx] by (cases item) auto
    have r: "remove_switch Less ctx n' item ty
             = (case find_item Less ctx (items n') item of
                  Inl e \<Rightarrow> Inl e | Inr (i, found) \<Rightarrow> Inr (Inr (i, found)))"
      using eq' it by simp
    from len g show ?thesis
    proof (cases rule: growChild_cases)
      case (left s1 x s2 cs1 cs2 l c)
      note b = bounded_at [OF bd [unfolded left(1)]]
      note s = shape_at [OF sh [unfolded left(1)]]
      have nel: "items l \<noteq> []" using left(4) by auto
      have yx: "item_less Less ctx (last (items l)) x"
        using ascending_at(1) [OF A [unfolded left(1)] left(2)] last_items_inorder [OF s(1) nel]
        by simp
      have old: "find_item Less ctx ((s1 @ [x]) @ s2) (Some v) = Inr (length (s1 @ [x]), found)"
        using F v left(3) by (subst (asm) left(1)) simp
      have a1: "ascending Less ctx ((s1 @ [x]) @ s2)"
        using I by (subst (asm) left(1)) simp
      have a2: "ascending Less ctx ((s1 @ [last (items l)]) @ s2)"
        using I' by (simp add: left(5))
      have "find_item Less ctx ((s1 @ [last (items l)]) @ s2) (Some v)
            = Inr (length (s1 @ [last (items l)]), found)"
        using old yx lt_trans [OF sw]
        unfolding find_item_split [OF sw a1] find_item_split [OF sw a2]
        by auto
      then have R: "remove_switch Less ctx n' item ty = Inr (Inr (Suc (length s1), found))"
        using r v by (simp add: left(5))
      have C: "children n' ! Suc (length s1) = Node (x # items c)
                   ((if children l = [] then [] else [last (children l)]) @ children c)"
        by (simp add: left(5) nth_append left(2))
      show ?thesis
        by (rule fin [OF R]) (use C b(4) left(2) in \<open>auto simp: left(5)\<close>)
    next
      case (right s1 x s2 cs1 cs2 c r')
      note b = bounded_at [OF bd [unfolded right(1)]]
      note s = shape_at [OF sh [unfolded right(1)]]
      have ner: "items r' \<noteq> []" using right(4) by auto
      have xz: "item_less Less ctx x (hd (items r'))"
        using ascending_at(2) [OF A [unfolded right(1)] right(2)] hd_items_inorder [OF s(2) ner]
        by simp
      have old: "find_item Less ctx (s1 @ (x # s2)) (Some v) = Inr (length s1, found)"
        using F v right(3) by (subst (asm) right(1)) simp
      have a1: "ascending Less ctx (s1 @ (x # s2))"
        using I by (subst (asm) right(1)) simp
      have a2: "ascending Less ctx (s1 @ (hd (items r') # s2))"
        using I' by (simp add: right(5))
      have "find_item Less ctx (s1 @ (hd (items r') # s2)) (Some v) = Inr (length s1, False)"
        using old xz lt_trans [OF sw] lt_equiv_left [OF sw xz]
        unfolding find_item_split [OF sw a1] find_item_split [OF sw a2]
        by (auto split: if_splits)
      then have R: "remove_switch Less ctx n' item ty = Inr (Inr (length s1, False))"
        using r v by (simp add: right(5))
      have C: "children n' ! length s1 = Node (items c @ [x])
                   (children c @ (if children r' = [] then [] else [hd (children r')]))"
        by (simp add: right(5) nth_append right(2))
      show ?thesis
        by (rule fin [OF R]) (use C b(3) right(2) in \<open>auto simp: right(5)\<close>)
    next
      case (merge s1 x s2 cs1 cs2 c d)
      note b = bounded_at [OF bd [unfolded merge(1)]]
      have a2: "ascending Less ctx (s1 @ s2)"
        using I' by (simp add: merge(5))
      have "find_item Less ctx (s1 @ s2) (Some v) = Inr (length s1, False)"
      proof (cases "i = length s1")
        case True
        have old: "find_item Less ctx (s1 @ (x # s2)) (Some v) = Inr (length s1, found)"
          using F v True by (subst (asm) merge(1)) simp
        have a1: "ascending Less ctx (s1 @ (x # s2))"
          using I by (subst (asm) merge(1)) simp
        show ?thesis
          using old
          unfolding find_item_split [OF sw a1] find_item_split [OF sw a2]
          by (auto split: if_splits)
      next
        case False
        then have i2: "i = Suc (length s1)" "s2 = []" using merge(3) by auto
        have old: "find_item Less ctx ((s1 @ [x]) @ []) (Some v) = Inr (length (s1 @ [x]), found)"
          using F v i2 by (subst (asm) merge(1)) simp
        have a1: "ascending Less ctx ((s1 @ [x]) @ [])"
          using I i2 by (subst (asm) merge(1)) simp
        have a3: "ascending Less ctx (s1 @ [])" using a2 i2 by simp
        have "find_item Less ctx (s1 @ []) (Some v) = Inr (length s1, False)"
          using old
          unfolding find_item_split [OF sw a1] find_item_split [OF sw a3]
          by (auto split: if_splits)
        then show ?thesis using i2 by simp
      qed
      then have R: "remove_switch Less ctx n' item ty = Inr (Inr (length s1, False))"
        using r v by (simp add: merge(5))
      have C: "children n' ! length s1 = Node (items c @ [x] @ items d) (children c @ children d)"
        by (simp add: merge(5) nth_append merge(2))
      show ?thesis
        by (rule fin [OF R]) (use C b(3) merge(2) in \<open>auto simp: merge(5)\<close>)
    qed
  qed
qed

lemma remove_node_fat:
  assumes "remove_switch Less ctx n item ty = Inr (Inr (i, found))"
    and "i < length (children n)" and "m < length (items (children n ! i))"
  shows "remove_node (Suc k) Less ctx n item m ty fl =
     (if found then
        (if i < length (items n) then
           (case remove_node k Less ctx (children n ! i) None m removeMax fl of
              None \<Rightarrow> None
            | Some (Inl e) \<Rightarrow> Some (Inl e)
            | Some (Inr (pred, child', fl')) \<Rightarrow>
                Some (Inr (items n ! i, Node ((items n)[i := pred]) ((children n)[i := child']), fl')))
         else Some (Inl IndexOutOfRange))
      else
        (case remove_node k Less ctx (children n ! i) item m ty fl of
           None \<Rightarrow> None
         | Some (Inl e) \<Rightarrow> Some (Inl e)
         | Some (Inr (out, child', fl')) \<Rightarrow>
             Some (Inr (out, Node (items n) ((children n)[i := child']), fl'))))"
  using assms by (simp add: remove_node.simps(2) Let_def)

lemma remove_node_thin:
  assumes "remove_switch Less ctx n item ty = Inr (Inr (i, found))"
    and "i < length (children n)" and "length (items (children n ! i)) \<le> m"
  shows "remove_node (Suc k) Less ctx n item m ty fl
         = growChildAndRemove k Less ctx n i item m ty fl"
  using assms by (simp add: remove_node.simps(2) Let_def)

text \<open>
  C2. In a tree that satisfies the invariants (arity and balance, at least \<open>minItems\<close>
  items in every node below the root and, when an item is searched, a strict weak ordering
  and a strictly ascending traversal), let \<open>remove\<close> select child \<open>i\<close> of an internal node holding at least one
  item. Then the growing step of \<open>growChildAndRemove\<close> returns, and in the node it leaves
  the child that the retry selects holds more than \<open>minItems\<close> items; so the retry equals
  its own descent (into the child for the predecessor, or with the item) and does not
  call \<open>growChildAndRemove\<close>.
\<close>

theorem grow_then_retry:
  assumes "ty = removeItem \<longrightarrow> strict_weak Less ctx \<and> ascending Less ctx (inorder n)"
    and "shape (Suc h) n" and "bounded m n"
    and "items n \<noteq> []"
    and "remove_switch Less ctx n item ty = Inr (Inr (i, found))"
    and "length (items (children n ! i)) \<le> m"
  shows "\<exists>n' fl' i' found'.
           growChild n i m fl = Inr (n', fl')
         \<and> remove_node (Suc (Suc (Suc k))) Less ctx n item m ty fl
             = remove_node (Suc k) Less ctx n' item m ty fl'
         \<and> remove_switch Less ctx n' item ty = Inr (Inr (i', found'))
         \<and> i' < length (children n') \<and> m < length (items (children n' ! i'))
         \<and> remove_node (Suc k) Less ctx n' item m ty fl' =
             (if found' then
                (case remove_node k Less ctx (children n' ! i') None m removeMax fl' of
                   None \<Rightarrow> None
                 | Some (Inl e) \<Rightarrow> Some (Inl e)
                 | Some (Inr (pred, child', fl'')) \<Rightarrow>
                     Some (Inr (items n' ! i',
                                Node ((items n')[i' := pred]) ((children n')[i' := child']), fl'')))
              else
                (case remove_node k Less ctx (children n' ! i') item m ty fl' of
                   None \<Rightarrow> None
                 | Some (Inl e) \<Rightarrow> Some (Inl e)
                 | Some (Inr (out, child', fl'')) \<Rightarrow>
                     Some (Inr (out, Node (items n') ((children n')[i' := child']), fl''))))"
proof -
  have len: "length (children n) = length (items n) + 1"
    using assms(2) by (simp add: shape_Suc)
  have i: "i < length (children n)"
    using remove_switch_internal(2) [OF assms(5)] len by simp
  obtain n' fl' where g: "growChild n i m fl = Inr (n', fl')"
    using growChild_total [OF i len assms(4)] by blast
  obtain i' found' where r: "remove_switch Less ctx n' item ty = Inr (Inr (i', found'))"
      "i' < length (children n')" "m < length (items (children n' ! i'))"
    using retry_select [OF _ assms(2,3) _ assms(5) g] assms(1) by blast
  have 1: "remove_node (Suc (Suc (Suc k))) Less ctx n item m ty fl
             = remove_node (Suc k) Less ctx n' item m ty fl'"
    using g by (simp add: remove_node_thin [OF assms(5) i assms(6)] growChildAndRemove.simps(2))
  have il: "found' \<Longrightarrow> i' < length (items n')"
    using remove_switch_internal(3) [OF r(1)] by simp
  have 2: "remove_node (Suc k) Less ctx n' item m ty fl' =
             (if found' then
                (case remove_node k Less ctx (children n' ! i') None m removeMax fl' of
                   None \<Rightarrow> None
                 | Some (Inl e) \<Rightarrow> Some (Inl e)
                 | Some (Inr (pred, child', fl'')) \<Rightarrow>
                     Some (Inr (items n' ! i',
                                Node ((items n')[i' := pred]) ((children n')[i' := child']), fl'')))
              else
                (case remove_node k Less ctx (children n' ! i') item m ty fl' of
                   None \<Rightarrow> None
                 | Some (Inl e) \<Rightarrow> Some (Inl e)
                 | Some (Inr (out, child', fl'')) \<Rightarrow>
                     Some (Inr (out, Node (items n') ((children n')[i' := child']), fl''))))"
    using il by (simp add: remove_node_fat [OF r])
  show ?thesis
    using g 1 r 2 by blast
qed

theorem grow_then_retry_witness:
  "strict_weak int_Less ()
   \<and> shape (Suc 0) (Node [Some 5] [Node [Some 1, Some 2, Some 3] [], Node [Some 7] []] :: int node)
   \<and> bounded 1 (Node [Some 5] [Node [Some 1, Some 2, Some 3] [], Node [Some 7] []] :: int node)
   \<and> ascending int_Less () (inorder (Node [Some 5] [Node [Some 1, Some 2, Some 3] [], Node [Some 7] []]))
   \<and> remove_switch int_Less () (Node [Some 5] [Node [Some 1, Some 2, Some 3] [], Node [Some 7] []])
        (Some 7) removeItem = Inr (Inr (1, False))
   \<and> growChild (Node [Some 5] [Node [Some 1, Some 2, Some 3] [], Node [Some 7] []]) 1 1
        \<lparr>freelist = [], cap = 32\<rparr>
      = Inr (Node [Some 3] [Node [Some 1, Some 2] [], Node [Some 5, Some 7] []] :: int node,
             \<lparr>freelist = [], cap = 32\<rparr>)
   \<and> remove_switch int_Less () (Node [Some 3] [Node [Some 1, Some 2] [], Node [Some 5, Some 7] []])
        (Some 7) removeItem = Inr (Inr (1, False))
   \<and> (\<exists>n' fl' i' found'.
         growChild (Node [Some 5] [Node [Some 1, Some 2, Some 3] [], Node [Some 7] []]) 1 1
           \<lparr>freelist = [], cap = 32\<rparr> = Inr (n' :: int node, fl')
       \<and> remove_switch int_Less () n' (Some 7) removeItem = Inr (Inr (i', found'))
       \<and> 1 < length (items (children n' ! i')))"
proof -
  let ?n = "Node [Some 5] [Node [Some 1, Some 2, Some 3] [], Node [Some 7] []] :: int node"
  let ?fl = "\<lparr>freelist = [], cap = 32\<rparr> :: int FreeList"
  have sh: "shape (Suc 0) ?n" by simp
  have bd: "bounded 1 ?n" by simp
  have asc: "ascending int_Less () (inorder ?n)"
    by (simp add: ascending_def int_Less_def)
  have ne: "items ?n \<noteq> []" by simp
  have sel: "remove_switch int_Less () ?n (Some 7) removeItem = Inr (Inr (1, False))"
    by code_simp
  have small: "length (items (children ?n ! 1)) \<le> 1" by simp
  have g: "growChild ?n 1 1 ?fl
      = Inr (Node [Some 3] [Node [Some 1, Some 2] [], Node [Some 5, Some 7] []], ?fl)"
    by code_simp
  have sel': "remove_switch int_Less () (Node [Some 3] [Node [Some 1, Some 2] [], Node [Some 5, Some 7] []])
        (Some 7) removeItem = Inr (Inr (1, False))"
    by code_simp
  have "\<exists>n' fl' i' found'.
         growChild ?n 1 1 ?fl = Inr (n', fl')
       \<and> remove_switch int_Less () n' (Some 7) removeItem = Inr (Inr (i', found'))
       \<and> 1 < length (items (children n' ! i'))"
    using grow_then_retry [OF _ sh bd ne sel small, of ?fl 0] asc strict_weak_int_Less
    by blast
  then show ?thesis
    using strict_weak_int_Less sh bd asc sel g sel' by blast
qed

subsection \<open>Removal returns\<close>

lemma growChild_items_length:
  assumes "length (children n) = length (items n) + 1" and "growChild n i m fl = Inr (n', fl')"
  shows "length (items n) \<le> length (items n') + 1"
  using assms
proof (cases rule: growChild_cases)
  case (left s1 x s2 cs1 cs2 l c)
  show ?thesis by (subst left(1)) (simp add: left(5))
next
  case (right s1 x s2 cs1 cs2 c r)
  show ?thesis by (subst right(1)) (simp add: right(5))
next
  case (merge s1 x s2 cs1 cs2 c d)
  show ?thesis by (subst merge(1)) (simp add: merge(5))
qed

lemma remove_switch_leaf_eq:
  assumes "children n = []"
  shows "remove_switch Less ctx n item ty =
     (if ty = removeMax then
        (if items n = [] then Inl IndexOutOfRange
         else Inr (Inl (last (items n), Node (butlast (items n)) [])))
      else if ty = removeMin then
        (if items n = [] then Inl IndexOutOfRange
         else Inr (Inl (hd (items n), Node (tl (items n)) [])))
      else if ty = removeItem then
        (case find_item Less ctx (items n) item of
           Inl e \<Rightarrow> Inl e
         | Inr (i, found) \<Rightarrow>
             if found then
               (if i < length (items n)
                then Inr (Inl (items n ! i, Node (take i (items n) @ drop (i + 1) (items n)) []))
                else Inl IndexOutOfRange)
             else Inr (Inl (None, n)))
      else Inl (InternalInvariant ''invalid type''))"
  using assms
  by (auto simp: remove_switch_def pop_def removeAt_def hd_conv_nth drop_Suc
      split: sum.splits)

lemma find_item_absent:
  assumes "strict_weak Less ctx" and "ascending Less ctx s"
    and "\<forall>y \<in> set s. \<not> equivalent Less ctx y (Some v)"
  shows "\<exists>i. find_item Less ctx s (Some v) = Inr (i, False) \<and> i \<le> length s"
proof -
  obtain i found where r: "find_item Less ctx s (Some v) = Inr (i, found)"
    using find_item_asc [OF assms(1,2), of v] by blast
  note ch = find_item_char [OF assms(1,2) r]
  have "\<not> found" using ch(2) assms(3) by auto
  then show ?thesis using r ch(1) by auto
qed

lemma toRemove_distinct [simp]:
  "removeItem \<noteq> removeMin" "removeItem \<noteq> removeMax" "removeMin \<noteq> removeMax"
  "removeMin \<noteq> removeItem" "removeMax \<noteq> removeItem" "removeMax \<noteq> removeMin"
  by (simp_all add: removeItem_def removeMin_def removeMax_def)

lemma removal_context:
  assumes "removal ty xc out yc" and "ty = removeMax \<Longrightarrow> Q = []" and "ty = removeMin \<Longrightarrow> P = []"
  shows "removal ty (P @ xc @ Q) out (P @ yc @ Q)"
  using assms by (auto simp: removal_def butlast_append removeMin_def removeMax_def)

lemma remove_node_returns:
  assumes ty: "ty = removeItem \<or> ty = removeMin \<or> ty = removeMax"
    and sw: "ty = removeItem \<Longrightarrow> strict_weak Less ctx"
  shows "shape h n \<Longrightarrow> bounded m n
     \<Longrightarrow> (if children n = [] then ty = removeItem \<or> items n \<noteq> []
          else items n \<noteq> [] \<or> m < length (items (children n ! 0)))
     \<Longrightarrow> (ty = removeItem \<Longrightarrow> ascending Less ctx (inorder n)
              \<and> (\<forall>y \<in> set (inorder n). \<not> equivalent Less ctx y (Some v)))
     \<Longrightarrow> 3 * h + 1 \<le> k
     \<Longrightarrow> \<exists>out n' fl'. remove_node k Less ctx n (Some v) m ty fl = Some (Inr (out, n', fl'))
          \<and> shape h n' \<and> bounded m n' \<and> length (items n) \<le> length (items n') + 1
          \<and> removal ty (inorder n) out (inorder n')"
proof (induction h arbitrary: n k fl)
  case 0
  have leaf: "children n = []" using "0.prems"(1) by (simp add: shape_0)
  obtain k' where k: "k = Suc k'" using "0.prems"(5) by (cases k) auto
  note eq = remove_switch_leaf_eq [OF leaf, of Less ctx "Some v" ty]
  have io: "inorder n = items n" using leaf by (rule inorder_leaf)
  have bn: "bounded m (Node s [])" for s :: "'a Item list" by simp
  consider (mx) "ty = removeMax" | (mn) "ty = removeMin" "ty \<noteq> removeMax"
    | (it) "ty = removeItem" "ty \<noteq> removeMax" "ty \<noteq> removeMin"
    using ty by auto
  then show ?case
  proof cases
    case mx
    then have ne: "items n \<noteq> []"
      using "0.prems"(3) leaf by (auto simp: removeItem_def removeMax_def)
    have "remove_node k Less ctx n (Some v) m ty fl
          = Some (Inr (last (items n), Node (butlast (items n)) [], fl))"
      using eq mx ne by (simp add: k remove_node.simps(2))
    then show ?thesis
      using mx ne by (simp add: io removal_def inorder_leaf)
  next
    case mn
    then have ne: "items n \<noteq> []"
      using "0.prems"(3) leaf by (auto simp: removeItem_def removeMin_def)
    have "remove_node k Less ctx n (Some v) m ty fl
          = Some (Inr (hd (items n), Node (tl (items n)) [], fl))"
      using eq mn ne by (simp add: k remove_node.simps(2))
    then show ?thesis
      using mn ne by (simp add: io removal_def inorder_leaf)
  next
    case it
    obtain i where "find_item Less ctx (items n) (Some v) = Inr (i, False)"
      using find_item_absent [OF sw [OF it(1)], of "items n" v] "0.prems"(4) [OF it(1)] io by auto
    then have "remove_node k Less ctx n (Some v) m ty fl = Some (Inr (None, n, fl))"
      using eq it by (simp add: k remove_node.simps(2))
    then show ?thesis
      using it "0.prems"(1,2) by (simp add: removal_def)
  qed
next
  case (Suc h)
  have fat: "\<exists>out n' fl'. remove_node k Less ctx n (Some v) m ty fl = Some (Inr (out, n', fl'))
          \<and> shape (Suc h) n' \<and> bounded m n' \<and> items n' = items n
          \<and> removal ty (inorder n) out (inorder n')"
    if sh: "shape (Suc h) n" and bd: "bounded m n"
      and as: "ty = removeItem \<Longrightarrow> ascending Less ctx (inorder n)
              \<and> (\<forall>y \<in> set (inorder n). \<not> equivalent Less ctx y (Some v))"
      and sel: "remove_switch Less ctx n (Some v) ty = Inr (Inr (i, False))"
      and big: "m < length (items (children n ! i))"
      and fuel: "3 * h + 2 \<le> k"
    for n k fl i
  proof -
    have len: "length (children n) = length (items n) + 1"
      using sh by (simp add: shape_Suc)
    have i: "i < length (children n)"
      using remove_switch_internal(2) [OF sel] len by simp
    obtain k' where k: "k = Suc k'" "3 * h + 1 \<le> k'" using fuel by (cases k) auto
    let ?c = "children n ! i"
    have cin: "?c \<in> set (children n)" using i by simp
    have shc: "shape h ?c" using sh cin by (simp add: shape_Suc)
    have bdc: "bounded m ?c" using boundedD(2) [OF bd cin] .
    have rc: "if children ?c = [] then ty = removeItem \<or> items ?c \<noteq> []
              else items ?c \<noteq> [] \<or> m < length (items (children ?c ! 0))"
      using big by auto
    have asc: "ascending Less ctx (inorder ?c)
              \<and> (\<forall>y \<in> set (inorder ?c). \<not> equivalent Less ctx y (Some v))"
      if "ty = removeItem"
    proof -
      have "ascending Less ctx (inorder ?c)"
        by (rule ascending_child [OF conjunct1 [OF as [OF that]] len i])
      moreover have "\<forall>y \<in> set (inorder ?c). \<not> equivalent Less ctx y (Some v)"
        using as [OF that] set_child_inorder [OF len cin] by auto
      ultimately show ?thesis by simp
    qed
    have "\<exists>out c' fl'. remove_node k' Less ctx ?c (Some v) m ty fl = Some (Inr (out, c', fl'))
          \<and> shape h c' \<and> bounded m c' \<and> length (items ?c) \<le> length (items c') + 1
          \<and> removal ty (inorder ?c) out (inorder c')"
      by (rule Suc.IH [OF shc bdc rc asc k(2)])
    then obtain out c' fl' where
      r: "remove_node k' Less ctx ?c (Some v) m ty fl = Some (Inr (out, c', fl'))"
      and c': "shape h c'" "bounded m c'" "length (items ?c) \<le> length (items c') + 1"
        "removal ty (inorder ?c) out (inorder c')"
      by (elim exE conjE)
    let ?n' = "Node (items n) ((children n)[i := c'])"
    have 1: "remove_node k Less ctx n (Some v) m ty fl = Some (Inr (out, ?n', fl'))"
      using r by (simp add: k remove_node_fat [OF sel i big])
    have 2: "shape (Suc h) ?n'" using shape_update(1) [OF sh c'(1)] .
    have 3: "bounded m ?n'"
    proof -
      have "\<forall>e \<in> set ((children n)[i := c']). m \<le> length (items e) \<and> bounded m e"
        using set_update_subset_insert [of "children n" i c'] boundedD [OF bd] c'(2,3) big
        by auto
      then show ?thesis by simp
    qed
    obtain P Q where ctxt: "inorder ?n' = P @ inorder c' @ Q" "inorder n = P @ inorder ?c @ Q"
        "i = 0 \<Longrightarrow> P = []" "i = length (items n) \<Longrightarrow> Q = []"
      by (rule inorder_context [OF i len]) blast
    note eq = remove_switch_internal_eq [of n Less ctx "Some v" ty]
    have cn: "children n \<noteq> []" using len by auto
    have imx: "ty = removeMax \<Longrightarrow> i = length (items n)"
      using sel eq [OF cn] by simp
    have imn: "ty = removeMin \<Longrightarrow> i = 0"
      using sel eq [OF cn] by (auto simp: removeMin_def removeMax_def)
    have 4: "removal ty (inorder n) out (inorder ?n')"
      unfolding ctxt(1,2)
      by (rule removal_context [OF c'(4)]) (use imx imn ctxt(3,4) in auto)
    show ?thesis using 1 2 3 4 by simp
  qed
  have len: "length (children n) = length (items n) + 1"
    using Suc.prems(1) by (simp add: shape_Suc)
  have cn: "children n \<noteq> []" using len by auto
  obtain i where sel: "remove_switch Less ctx n (Some v) ty = Inr (Inr (i, False))"
  proof -
    note eq = remove_switch_internal_eq [OF cn, of Less ctx "Some v" ty]
    consider (mx) "ty = removeMax" | (mn) "ty = removeMin" "ty \<noteq> removeMax"
      | (it) "ty = removeItem" "ty \<noteq> removeMax" "ty \<noteq> removeMin"
      using ty by auto
    then show thesis
    proof cases
      case mx
      then show ?thesis using eq that by simp
    next
      case mn
      then show ?thesis using eq that by simp
    next
      case it
      have "ascending Less ctx (items n)"
        by (rule ascending_items [OF shape_arity [OF Suc.prems(1)]
              conjunct1 [OF Suc.prems(4) [OF it(1)]]])
      moreover have "\<forall>y \<in> set (items n). \<not> equivalent Less ctx y (Some v)"
        using set_items_inorder [OF shape_arity [OF Suc.prems(1)]] Suc.prems(4) [OF it(1)] by auto
      ultimately obtain j where "find_item Less ctx (items n) (Some v) = Inr (j, False)"
        using find_item_absent [OF sw [OF it(1)]] by blast
      then show ?thesis using eq it that by simp
    qed
  qed
  have i: "i < length (children n)"
    using remove_switch_internal(2) [OF sel] len by simp
  show ?case
  proof (cases "m < length (items (children n ! i))")
    case True
    have "3 * h + 2 \<le> k" using Suc.prems(5) by simp
    from fat [OF Suc.prems(1,2,4) sel True this, of fl]
    show ?thesis by auto
  next
    case False
    then have small: "length (items (children n ! i)) \<le> m" by simp
    have ne: "items n \<noteq> []"
    proof
      assume e: "items n = []"
      then have "i = 0" using i len by simp
      then show False using Suc.prems(3) cn e False by simp
    qed
    obtain n1 fl1 where g: "growChild n i m fl = Inr (n1, fl1)"
      using growChild_total [OF i len ne] by blast
    have "\<exists>i' found'. remove_switch Less ctx n1 (Some v) ty = Inr (Inr (i', found'))
           \<and> i' < length (children n1) \<and> m < length (items (children n1 ! i'))
           \<and> (found' \<longrightarrow> False)"
      by (rule retry_select [OF sw Suc.prems(1,2) _ sel g])
         (assumption, erule conjunct1 [OF Suc.prems(4)])
    then obtain i' found' where r: "remove_switch Less ctx n1 (Some v) ty = Inr (Inr (i', found'))"
        "i' < length (children n1)" "m < length (items (children n1 ! i'))" "found' \<longrightarrow> False"
      by (elim exE conjE)
    then have r1: "remove_switch Less ctx n1 (Some v) ty = Inr (Inr (i', False))" by simp
    obtain k' where k: "k = Suc (Suc k')" "3 * h + 2 \<le> k'"
      using Suc.prems(5) by (cases k; cases "k - 1") auto
    have sh1: "shape (Suc h) n1" using growChild_shape [OF Suc.prems(1) g] .
    have bd1: "bounded m n1" using growChild_bounded [OF Suc.prems(1,2) g] .
    have io1: "inorder n1 = inorder n" using growChild_inorder [OF Suc.prems(1) g] .
    have as1: "ty = removeItem \<Longrightarrow> ascending Less ctx (inorder n1)
              \<and> (\<forall>y \<in> set (inorder n1). \<not> equivalent Less ctx y (Some v))"
      using Suc.prems(4) io1 by simp
    have "\<exists>out n' fl'. remove_node k' Less ctx n1 (Some v) m ty fl1 = Some (Inr (out, n', fl'))
          \<and> shape (Suc h) n' \<and> bounded m n' \<and> items n' = items n1
          \<and> removal ty (inorder n1) out (inorder n')"
      by (rule fat [OF sh1 bd1 as1 r1 r(3) k(2)])
    then obtain out n' fl' where
      res: "remove_node k' Less ctx n1 (Some v) m ty fl1 = Some (Inr (out, n', fl'))"
        "shape (Suc h) n'" "bounded m n'" "items n' = items n1"
        "removal ty (inorder n1) out (inorder n')"
      by (elim exE conjE)
    have "remove_node k Less ctx n (Some v) m ty fl = Some (Inr (out, n', fl'))"
      using res(1) g
      by (simp add: k remove_node_thin [OF sel i small] growChildAndRemove.simps(2))
    moreover have "length (items n) \<le> length (items n') + 1"
      using growChild_items_length [OF len g] res(4) by simp
    ultimately show ?thesis using res io1 by auto
  qed
qed

subsection \<open>Deleting an item that is not stored\<close>

lemma inorder_collapse:
  assumes "shape h n" and "items n = []" and "children n \<noteq> []"
  shows "inorder (children n ! 0) = inorder n"
proof (cases n)
  case (Node s cs)
  then obtain h' where h: "h = Suc h'" using assms(1,3) by (cases h) auto
  then have "length cs = 1" using assms(1,2) Node by simp
  then obtain c where "cs = [c]" by (cases cs) auto
  then show ?thesis using Node assms(2) by simp
qed

lemma inorder_empty:
  assumes "items n = []" and "children n = []"
  shows "inorder n = []"
  using assms by (cases n) simp

text \<open>
  C7. Deleting an item that has no equivalent in the tree returns absent and leaves the
  length and the full ascending sequence of the tree as they were. The tree is well formed:
  \<open>Less\<close> is a strict weak ordering, the root (when there is one) is balanced, holds an item,
  every node below it holds at least \<open>minItems\<close> items, and the sequence of the tree is
  ascending. With fuel \<open>3 * h + 1\<close> for a tree of height \<open>h\<close> the call returns. The nodes
  of the tree may be rearranged by the growing steps on the way down.
\<close>

theorem delete_absent:
  assumes "strict_weak Less (t_ctx t)"
    and "\<And>r. t_root t = Some r \<Longrightarrow> shape h r \<and> bounded (minItems t) r \<and> items r \<noteq> []"
    and "ascending Less (t_ctx t) (Ascend t)"
    and "\<forall>y \<in> set (Ascend t). \<not> equivalent Less (t_ctx t) y (Some x)"
    and "3 * h + 1 \<le> k"
  shows "\<exists>t'. Delete k Less t (Some x) = Some (Inr (None, t'))
           \<and> Len t' = Len t \<and> Ascend t' = Ascend t"
proof (cases "t_root t")
  case None
  then show ?thesis by (simp add: Delete_def deleteInternal_def)
next
  case (Some r)
  note inv = assms(2) [OF Some]
  have io: "Ascend t = inorder r" using Some by (simp add: Ascend_def)
  have rc: "if children r = [] then removeItem = removeItem \<or> items r \<noteq> []
            else items r \<noteq> [] \<or> minItems t < length (items (children r ! 0))"
    using inv by simp
  have as: "removeItem = removeItem \<Longrightarrow> ascending Less (t_ctx t) (inorder r)
            \<and> (\<forall>y \<in> set (inorder r). \<not> equivalent Less (t_ctx t) y (Some x))"
    using assms(3,4) io by simp
  have "\<exists>out n' fl'. remove_node k Less (t_ctx t) r (Some x) (minItems t) removeItem (t_freelist t)
            = Some (Inr (out, n', fl'))
          \<and> shape h n' \<and> bounded (minItems t) n' \<and> length (items r) \<le> length (items n') + 1
          \<and> removal removeItem (inorder r) out (inorder n')"
    by (rule remove_node_returns [OF _ _ conjunct1 [OF inv] conjunct1 [OF conjunct2 [OF inv]]
          rc as assms(5)]) (simp_all add: assms(1))
  then obtain out n' fl' where
    r: "remove_node k Less (t_ctx t) r (Some x) (minItems t) removeItem (t_freelist t)
            = Some (Inr (out, n', fl'))"
    and sh: "shape h n'" and rm: "removal removeItem (inorder r) out (inorder n')"
    by (elim exE conjE)
  have out: "out = None" and io': "inorder n' = inorder r"
    using rm by (simp_all add: removal_def removeItem_def removeMax_def removeMin_def)
  show ?thesis
    using Some r out io' inorder_collapse [OF sh] inorder_empty [of n']
    by (simp add: Delete_def deleteInternal_def Ascend_def Len_def)
qed

theorem delete_absent_witness:
  "strict_weak int_Less ()
   \<and> ascending int_Less ()
       (Ascend \<lparr>t_degree = 2, t_freelist = \<lparr>freelist = [], cap = 32\<rparr>, t_ctx = (),
               t_root = Some (Node [Some 2] [Node [Some 1] [], Node [Some 3] []]),
               t_length = 3\<rparr>)
   \<and> Delete 4 int_Less
        \<lparr>t_degree = 2, t_freelist = \<lparr>freelist = [], cap = 32\<rparr>, t_ctx = (),
         t_root = Some (Node [Some 2] [Node [Some 1] [], Node [Some 3] []]),
         t_length = 3\<rparr> (Some 5)
      = Some (Inr (None,
          \<lparr>t_degree = 2, t_freelist = \<lparr>freelist = [Node [] [], Node [] []], cap = 32\<rparr>, t_ctx = (),
           t_root = Some (Node [Some 1, Some 2, Some 3] []),
           t_length = 3\<rparr>))
   \<and> (\<exists>t'. Delete 4 int_Less
        \<lparr>t_degree = 2, t_freelist = \<lparr>freelist = [], cap = 32\<rparr>, t_ctx = (),
         t_root = Some (Node [Some 2] [Node [Some 1] [], Node [Some 3] []]),
         t_length = 3\<rparr> (Some 5) = Some (Inr (None, t'))
       \<and> Len t' = 3 \<and> Ascend t' = [Some 1, Some 2, Some 3])"
proof -
  let ?t = "\<lparr>t_degree = 2, t_freelist = \<lparr>freelist = [], cap = 32\<rparr>, t_ctx = (),
         t_root = Some (Node [Some 2] [Node [Some 1] [], Node [Some 3] []]),
         t_length = 3\<rparr> :: (int, unit) BTree"
  have io: "Ascend ?t = [Some 1, Some 2, Some 3]" by (simp add: Ascend_def)
  have asc: "ascending int_Less () (Ascend ?t)"
    unfolding io by (simp add: ascending_def int_Less_def)
  have inv: "\<And>r. t_root ?t = Some r \<Longrightarrow> shape (Suc 0) r \<and> bounded (minItems ?t) r \<and> items r \<noteq> []"
    by (auto simp: minItems_def)
  have ab: "\<forall>y \<in> set (Ascend ?t). \<not> equivalent int_Less () y (Some 5)"
    unfolding io by (simp add: equivalent_def int_Less_def)
  have d: "Delete 4 int_Less ?t (Some 5)
      = Some (Inr (None,
          \<lparr>t_degree = 2, t_freelist = \<lparr>freelist = [Node [] [], Node [] []], cap = 32\<rparr>, t_ctx = (),
           t_root = Some (Node [Some 1, Some 2, Some 3] []),
           t_length = 3\<rparr>))"
    by code_simp
  have "\<exists>t'. Delete 4 int_Less ?t (Some 5) = Some (Inr (None, t'))
           \<and> Len t' = Len ?t \<and> Ascend t' = Ascend ?t"
    using delete_absent [of int_Less ?t "Suc 0" 5 4] strict_weak_int_Less inv asc ab
    by simp
  then have "\<exists>t'. Delete 4 int_Less ?t (Some 5) = Some (Inr (None, t'))
           \<and> Len t' = 3 \<and> Ascend t' = [Some 1, Some 2, Some 3]"
    unfolding io by (simp add: Len_def)
  then show ?thesis
    using strict_weak_int_Less asc d by blast
qed

subsection \<open>The item found in an internal node\<close>

lemma remove_node_max:
  assumes "shape h c" and "bounded m c" and "items c \<noteq> []" and "3 * h + 1 \<le> k"
  shows "\<exists>out c' fl'. remove_node k Less ctx c None m removeMax fl = Some (Inr (out, c', fl'))
          \<and> shape h c' \<and> bounded m c'
          \<and> out = last (inorder c) \<and> inorder c' = butlast (inorder c)"
proof -
  have rc: "if children c = [] then removeMax = removeItem \<or> items c \<noteq> []
            else items c \<noteq> [] \<or> m < length (items (children c ! 0))"
    using assms(3) by simp
  have ne: "removeMax \<noteq> removeItem" by (simp add: removeMax_def removeItem_def)
  have "\<exists>out c' fl'. remove_node k Less ctx c (Some undefined) m removeMax fl
            = Some (Inr (out, c', fl'))
          \<and> shape h c' \<and> bounded m c' \<and> length (items c) \<le> length (items c') + 1
          \<and> removal removeMax (inorder c) out (inorder c')"
    by (rule remove_node_returns [OF _ _ assms(1,2) rc _ assms(4)]) (simp_all add: ne)
  moreover have "remove_node k Less ctx c (Some undefined) m removeMax fl
      = remove_node k Less ctx c None m removeMax fl"
    by (rule remove_minmax_indep [THEN conjunct1]) simp
  ultimately show ?thesis by (auto simp: removal_def)
qed

text \<open>
  C3. In an internal node where \<open>find\<close> reports the item at index \<open>i\<close> of the node's own
  items and child \<open>i\<close> holds more than \<open>minItems\<close> items, \<open>remove\<close> in mode \<open>removeItem\<close>
  calls \<open>remove\<close> on child \<open>i\<close> with a nil item in mode \<open>removeMax\<close>, puts the item it
  returns at index \<open>i\<close> and returns the item that was stored there. When the node is
  balanced and its lower nodes hold at least \<open>minItems\<close> items, the inner call returns (with
  fuel \<open>3 * h + 1\<close>) and its result is the predecessor: the last item of the ascending
  sequence of child \<open>i\<close>, which loses that item.
\<close>

theorem found_takes_predecessor:
  assumes "children n \<noteq> []" and "arity n"
    and "find_item Less ctx (items n) item = Inr (i, True)"
    and "m < length (items (children n ! i))"
  shows "remove_node (Suc k) Less ctx n item m removeItem fl =
           (case remove_node k Less ctx (children n ! i) None m removeMax fl of
              None \<Rightarrow> None
            | Some (Inl e) \<Rightarrow> Some (Inl e)
            | Some (Inr (pred, child', fl')) \<Rightarrow>
                Some (Inr (items n ! i,
                           Node ((items n)[i := pred]) ((children n)[i := child']), fl')))
       \<and> (shape (Suc h) n \<and> bounded m n \<and> 3 * h + 1 \<le> k \<longrightarrow>
            (\<exists>pred child' fl'.
                remove_node k Less ctx (children n ! i) None m removeMax fl
                  = Some (Inr (pred, child', fl'))
              \<and> pred = last (inorder (children n ! i))
              \<and> inorder child' = butlast (inorder (children n ! i))
              \<and> shape h child' \<and> bounded m child'
              \<and> remove_node (Suc k) Less ctx n item m removeItem fl
                  = Some (Inr (items n ! i,
                               Node ((items n)[i := pred]) ((children n)[i := child']), fl'))))"
proof -
  have sel: "remove_switch Less ctx n item removeItem = Inr (Inr (i, True))"
    using assms(1,3)
    by (simp add: remove_switch_internal_eq removeItem_def removeMax_def removeMin_def)
  have il: "i < length (items n)" using find_item_bounds(2) [OF assms(3)] by simp
  have len: "length (children n) = length (items n) + 1"
    using assms(1,2) by (cases n) auto
  have i: "i < length (children n)" using il len by simp
  have 1: "remove_node (Suc k) Less ctx n item m removeItem fl =
           (case remove_node k Less ctx (children n ! i) None m removeMax fl of
              None \<Rightarrow> None
            | Some (Inl e) \<Rightarrow> Some (Inl e)
            | Some (Inr (pred, child', fl')) \<Rightarrow>
                Some (Inr (items n ! i,
                           Node ((items n)[i := pred]) ((children n)[i := child']), fl')))"
    using il by (simp add: remove_node_fat [OF sel i assms(4)])
  have 2: "\<exists>pred child' fl'.
                remove_node k Less ctx (children n ! i) None m removeMax fl
                  = Some (Inr (pred, child', fl'))
              \<and> pred = last (inorder (children n ! i))
              \<and> inorder child' = butlast (inorder (children n ! i))
              \<and> shape h child' \<and> bounded m child'
              \<and> remove_node (Suc k) Less ctx n item m removeItem fl
                  = Some (Inr (items n ! i,
                               Node ((items n)[i := pred]) ((children n)[i := child']), fl'))"
    if sh: "shape (Suc h) n" and bd: "bounded m n" and fuel: "3 * h + 1 \<le> k"
  proof -
    let ?c = "children n ! i"
    have cin: "?c \<in> set (children n)" using i by simp
    have shc: "shape h ?c" using sh cin by (simp add: shape_Suc)
    have bdc: "bounded m ?c" using boundedD(2) [OF bd cin] .
    have ne: "items ?c \<noteq> []" using assms(4) by auto
    obtain out c' fl' where
      r: "remove_node k Less ctx ?c None m removeMax fl = Some (Inr (out, c', fl'))"
        "shape h c'" "bounded m c'" "out = last (inorder ?c)" "inorder c' = butlast (inorder ?c)"
      using remove_node_max [OF shc bdc ne fuel, of Less ctx fl] by blast
    show ?thesis using r 1 by simp
  qed
  show ?thesis using 1 2 by blast
qed

theorem found_takes_predecessor_witness:
  "find_item int_Less () (items (Node [Some 5] [Node [Some 1, Some 3] [], Node [Some 7] []]))
       (Some 5) = Inr (0, True)
   \<and> 1 < length (items (children (Node [Some 5] [Node [Some 1, Some (3::int)] [], Node [Some 7] []]) ! 0))
   \<and> shape (Suc 0) (Node [Some 5] [Node [Some 1, Some (3::int)] [], Node [Some 7] []])
   \<and> bounded 1 (Node [Some 5] [Node [Some 1, Some (3::int)] [], Node [Some 7] []])
   \<and> remove_node 1 int_Less () (Node [Some 1, Some 3] []) None 1 removeMax
        \<lparr>freelist = [], cap = 32\<rparr>
       = Some (Inr (Some 3, Node [Some 1] [], \<lparr>freelist = [], cap = 32\<rparr>))
   \<and> remove_node 2 int_Less () (Node [Some 5] [Node [Some 1, Some 3] [], Node [Some 7] []])
        (Some 5) 1 removeItem \<lparr>freelist = [], cap = 32\<rparr>
       = Some (Inr (Some 5, Node [Some 3] [Node [Some 1] [], Node [Some 7] []],
                    \<lparr>freelist = [], cap = 32\<rparr>))
   \<and> (\<exists>pred child' fl'.
         remove_node 1 int_Less () (Node [Some 1, Some 3] []) None 1 removeMax
             \<lparr>freelist = [], cap = 32\<rparr> = Some (Inr (pred, child', fl'))
       \<and> pred = Some 3
       \<and> remove_node 2 int_Less () (Node [Some 5] [Node [Some 1, Some 3] [], Node [Some 7] []])
           (Some 5) 1 removeItem \<lparr>freelist = [], cap = 32\<rparr>
          = Some (Inr (Some 5, Node [pred] [child', Node [Some 7] []], fl')))"
proof -
  let ?n = "Node [Some 5] [Node [Some 1, Some 3] [], Node [Some 7] []] :: int node"
  let ?fl = "\<lparr>freelist = [], cap = 32\<rparr> :: int FreeList"
  have f: "find_item int_Less () (items ?n) (Some 5) = Inr (0, True)" by code_simp
  have big: "1 < length (items (children ?n ! 0))" by simp
  have sh: "shape (Suc 0) ?n" by simp
  have bd: "bounded 1 ?n" by simp
  have c: "remove_node 1 int_Less () (Node [Some 1, Some 3] []) None 1 removeMax ?fl
       = Some (Inr (Some 3, Node [Some 1] [], ?fl))"
    by code_simp
  have r: "remove_node 2 int_Less () ?n (Some 5) 1 removeItem ?fl
       = Some (Inr (Some 5, Node [Some 3] [Node [Some 1] [], Node [Some 7] []], ?fl))"
    by code_simp
  have "\<exists>pred child' fl'.
         remove_node 1 int_Less () (children ?n ! 0) None 1 removeMax ?fl
            = Some (Inr (pred, child', fl'))
       \<and> pred = last (inorder (children ?n ! 0))
       \<and> remove_node (Suc 1) int_Less () ?n (Some 5) 1 removeItem ?fl
          = Some (Inr (items ?n ! 0, Node ((items ?n)[0 := pred]) ((children ?n)[0 := child']), fl'))"
    using found_takes_predecessor [of ?n int_Less "()" "Some 5" 0 1 1 ?fl 0, OF _ _ f big] sh bd
    by auto
  then have "\<exists>pred child' fl'.
         remove_node 1 int_Less () (Node [Some 1, Some 3] []) None 1 removeMax ?fl
            = Some (Inr (pred, child', fl'))
       \<and> pred = Some 3
       \<and> remove_node 2 int_Less () ?n (Some 5) 1 removeItem ?fl
          = Some (Inr (Some 5, Node [pred] [child', Node [Some 7] []], fl'))"
    by (simp add: numeral_2_eq_2)
  then show ?thesis
    using f big sh bd c r by blast
qed

end
